theory Spec2Isabelle
  imports Main
begin

section \<open>The comment entity\<close>

text \<open>
  The entity class \<open>Comment\<close> (comment.entity.ts) as a record of its columns. Dates are
  the millisecond time value of a JavaScript \<open>Date\<close>; a nullable column is an option.
  The primary key is called \<open>comment_id\<close> here, since \<open>id\<close> is the identity function of HOL.
  The relation fields (author, parent, children, notifications) are loaded objects, not
  columns; the only one the service assigns, \<open>children\<close>, is the list of subtrees of
  \<open>comment_tree\<close> below. The column \<open>deletedAtSoft\<close> is never written by the service and is
  left out.
\<close>

record comment =
  comment_id :: string
  content :: string
  originalContent :: "string option"
  isEdited :: bool
  editedAt :: "int option"
  isDeleted :: bool
  deletedAt :: "int option"
  restoredAt :: "int option"
  depth :: int
  childrenCount :: int
  path :: "string option"
  createdAt :: int
  updatedAt :: int
  authorId :: string
  parentId :: "string option"

text \<open>The three getters of the entity; \<open>now\<close> is the value of \<open>Date.now()\<close>.\<close>

definition fifteenMinutesAgo :: "int \<Rightarrow> int" where
  "fifteenMinutesAgo now = now - 15 * 60 * 1000"

definition isEditable :: "int \<Rightarrow> comment \<Rightarrow> bool" where
  "isEditable now c = (createdAt c > fifteenMinutesAgo now \<and> \<not> isDeleted c)"

definition isDeletable :: "int \<Rightarrow> comment \<Rightarrow> bool" where
  "isDeletable now c = (createdAt c > fifteenMinutesAgo now)"

definition isRestorable :: "int \<Rightarrow> comment \<Rightarrow> bool" where
  "isRestorable now c =
     (if \<not> isDeleted c \<or> deletedAt c = None then False
      else (case deletedAt c of None \<Rightarrow> False | Some d \<Rightarrow> d > fifteenMinutesAgo now))"

section \<open>The repository\<close>

text \<open>
  The table of comments is the list of its rows, in insertion order. \<open>findOne\<close> by id
  returns the first row with that id; \<open>save\<close> of a loaded entity and \<open>update\<close> by id
  rewrite the rows with that id and stamp the \<open>UpdateDateColumn\<close>.
\<close>

type_synonym store = "comment list"

datatype error =
    NotFoundException string
  | ForbiddenException string
  | BadRequestException string
  | NotificationRejected
  | QueryFailedError

definition findById :: "store \<Rightarrow> string \<Rightarrow> comment option" where
  "findById s i = find (\<lambda>r. comment_id r = i) s"

definition save :: "store \<Rightarrow> comment \<Rightarrow> int \<Rightarrow> comment \<times> store" where
  "save s c now =
     (let c' = c\<lparr>updatedAt := now\<rparr>
      in (c', map (\<lambda>r. if comment_id r = comment_id c then c' else r) s))"

definition update_childrenCount :: "store \<Rightarrow> string \<Rightarrow> int \<Rightarrow> int \<Rightarrow> store" where
  "update_childrenCount s i n now =
     map (\<lambda>r. if comment_id r = i then r\<lparr>childrenCount := n, updatedAt := now\<rparr> else r) s"

section \<open>Edit, soft-delete and restore\<close>

text \<open>
  Each operation returns what the promise settles to (\<open>Inl\<close> the exception thrown) and
  the table afterwards. \<open>now\<close> is the clock of the call.
\<close>

definition update :: "store \<Rightarrow> string \<Rightarrow> string \<Rightarrow> string \<Rightarrow> int \<Rightarrow> (error + comment) \<times> store" where
  "update s i newContent userId now =
     (case findById s i of
        None \<Rightarrow> (Inl (NotFoundException ''Comment not found''), s)
      | Some c \<Rightarrow>
          if authorId c \<noteq> userId then
            (Inl (ForbiddenException ''You can only edit your own comments''), s)
          else if \<not> isEditable now c then
            (Inl (ForbiddenException ''Comment can only be edited within 15 minutes of posting''), s)
          else if isDeleted c then
            (Inl (BadRequestException ''Cannot edit deleted comment''), s)
          else
            (let c1 = (if \<not> isEdited c then c\<lparr>originalContent := Some (content c)\<rparr> else c);
                 c2 = c1\<lparr>content := newContent, isEdited := True, editedAt := Some now\<rparr>;
                 (saved, s') = save s c2 now
             in (Inr saved, s')))"

definition delete :: "store \<Rightarrow> string \<Rightarrow> string \<Rightarrow> int \<Rightarrow> (error + comment) \<times> store" where
  "delete s i userId now =
     (case findById s i of
        None \<Rightarrow> (Inl (NotFoundException ''Comment not found''), s)
      | Some c \<Rightarrow>
          if authorId c \<noteq> userId then
            (Inl (ForbiddenException ''You can only delete your own comments''), s)
          else if \<not> isDeletable now c then
            (Inl (ForbiddenException ''Comment can only be deleted within 15 minutes of posting''), s)
          else
            (let c1 = c\<lparr>isDeleted := True, deletedAt := Some now\<rparr>;
                 (saved, s') = save s c1 now
             in (Inr saved, s')))"

definition restore :: "store \<Rightarrow> string \<Rightarrow> string \<Rightarrow> int \<Rightarrow> (error + comment) \<times> store" where
  "restore s i userId now =
     (case findById s i of
        None \<Rightarrow> (Inl (NotFoundException ''Comment not found''), s)
      | Some c \<Rightarrow>
          if authorId c \<noteq> userId then
            (Inl (ForbiddenException ''You can only restore your own comments''), s)
          else if \<not> isRestorable now c then
            (Inl (ForbiddenException ''Comment can only be restored within 15 minutes of deletion''), s)
          else
            (let c1 = c\<lparr>isDeleted := False, deletedAt := None, restoredAt := Some now\<rparr>;
                 (saved, s') = save s c1 now
             in (Inr saved, s')))"

section \<open>Creation\<close>

text \<open>
  \<open>create\<close> takes the fields of \<open>CreateCommentData\<close>; \<open>parent_id\<close> is \<open>None\<close> when the
  field is undefined. \<open>if (parentId)\<close> is JavaScript truthiness: undefined and the empty
  string both skip the parent branch. \<open>notify\<close> stands for
  \<open>notificationsService.createCommentReplyNotification\<close> (recipient, comment id, actor),
  an awaited call to another service: it returns \<open>True\<close> when the promise resolves and
  \<open>False\<close> when it rejects. \<open>newId\<close> is the uuid the database generates for the inserted
  row, and \<open>now\<close> the time of the call, which stamps the date columns. The result is what
  \<open>findById(savedComment.id)\<close> returns.

  The columns \<open>id\<close>, \<open>parentId\<close> and \<open>authorId\<close> have the type uuid, \<open>authorId\<close> is a
  foreign key to the users table, and \<open>path\<close> is a \<open>varchar(500)\<close>. \<open>parentId\<close> and
  \<open>authorId\<close> reach the database as the texts the caller gave. The database is not part of
  the service; what it makes of these texts is a \<open>database\<close>: \<open>uuid_in\<close> is its reading of
  a text as a uuid, \<open>None\<close> when it refuses the text, otherwise the text under which it
  stores and returns that uuid, which is the form of every id in the table; \<open>user_in\<close> is
  its reading of a text as the id of a user, \<open>None\<close> when the text is not a uuid or the
  users table holds no such user. The empty text is never a uuid. A statement with a text
  that is refused, or with a path of more than 500 characters, fails with
  \<open>QueryFailedError\<close> and changes nothing. The service opens no transaction, so what was
  written before stays written.
\<close>

record database =
  uuid_in :: "string \<Rightarrow> string option"
  user_in :: "string \<Rightarrow> string option"

definition read_uuid :: "(string \<Rightarrow> string option) \<Rightarrow> string \<Rightarrow> string option" where
  "read_uuid reading txt = (if txt = [] then None else reading txt)"

definition new_comment :: "string \<Rightarrow> string \<Rightarrow> string option \<Rightarrow> int \<Rightarrow> string \<Rightarrow> string \<Rightarrow> int \<Rightarrow> comment" where
  "new_comment newContent author parent_id d p newId now =
     \<lparr>comment_id = newId, content = newContent, originalContent = None,
      isEdited = False, editedAt = None, isDeleted = False, deletedAt = None,
      restoredAt = None, depth = d, childrenCount = 0, path = Some p,
      createdAt = now, updatedAt = now, authorId = author, parentId = parent_id\<rparr>"

definition child_path :: "comment \<Rightarrow> string" where
  "child_path parent =
     (case path parent of
        None \<Rightarrow> comment_id parent
      | Some p \<Rightarrow> if p \<noteq> [] then p @ ''.'' @ comment_id parent else comment_id parent)"

text \<open>
  The INSERT of \<open>commentRepository.save(comment)\<close>: the row that is stored, or the
  database's refusal.
\<close>

definition insert_comment ::
  "database \<Rightarrow> string \<Rightarrow> string \<Rightarrow> string option \<Rightarrow> int \<Rightarrow> string \<Rightarrow> string \<Rightarrow> int \<Rightarrow>
     error + comment" where
  "insert_comment db newContent author parent_id d p newId now =
     (case read_uuid (user_in db) author of
        None \<Rightarrow> Inl QueryFailedError
      | Some ua \<Rightarrow>
          (case parent_id of
             None \<Rightarrow>
               if length p > 500 then Inl QueryFailedError
               else Inr (new_comment newContent ua None d p newId now)
           | Some txt \<Rightarrow>
               (case read_uuid (uuid_in db) txt of
                  None \<Rightarrow> Inl QueryFailedError
                | Some u \<Rightarrow>
                    if length p > 500 then Inl QueryFailedError
                    else Inr (new_comment newContent ua (Some u) d p newId now))))"

definition save_and_notify ::
  "database \<Rightarrow> (string \<Rightarrow> string \<Rightarrow> string \<Rightarrow> bool) \<Rightarrow> store \<Rightarrow> string \<Rightarrow> string \<Rightarrow>
     string option \<Rightarrow> comment option \<Rightarrow> int \<Rightarrow> string \<Rightarrow> string \<Rightarrow> int \<Rightarrow>
     (error + comment option) \<times> store" where
  "save_and_notify db notify s newContent author parent_id parent d p newId now =
     (case insert_comment db newContent author parent_id d p newId now of
        Inl e \<Rightarrow> (Inl e, s)
      | Inr savedComment \<Rightarrow>
          (let s' = s @ [savedComment]
           in case parent of
                None \<Rightarrow> (Inr (findById s' (comment_id savedComment)), s')
              | Some par \<Rightarrow>
                  if authorId par \<noteq> author
                     \<and> \<not> notify (authorId par) (comment_id savedComment) author
                  then (Inl NotificationRejected, s')
                  else (Inr (findById s' (comment_id savedComment)), s')))"

definition create ::
  "database \<Rightarrow> (string \<Rightarrow> string \<Rightarrow> string \<Rightarrow> bool) \<Rightarrow> store \<Rightarrow> string \<Rightarrow> string \<Rightarrow>
     string option \<Rightarrow> string \<Rightarrow> int \<Rightarrow> (error + comment option) \<times> store" where
  "create db notify s newContent author parent_id newId now =
     (case parent_id of
        None \<Rightarrow> save_and_notify db notify s newContent author parent_id None 0 [] newId now
      | Some pid \<Rightarrow>
          if pid = [] then
            save_and_notify db notify s newContent author parent_id None 0 [] newId now
          else
            (case read_uuid (uuid_in db) pid of
               None \<Rightarrow> (Inl QueryFailedError, s)
             | Some u \<Rightarrow>
                 (case findById s u of
                    None \<Rightarrow> (Inl (NotFoundException ''Parent comment not found''), s)
                  | Some parent \<Rightarrow>
                      if isDeleted parent then
                        (Inl (BadRequestException ''Cannot reply to deleted comment''), s)
                      else
                        (let d = depth parent + 1;
                             p = child_path parent;
                             s1 = update_childrenCount s u (childrenCount parent + 1) now
                         in save_and_notify db notify s1 newContent author parent_id
                              (Some parent) d p newId now))))"

section \<open>Retrieval\<close>

text \<open>
  SQL \<open>LIKE\<close>: \<open>%\<close> matches any run of characters and \<open>_\<close> any one character. A null
  column never matches.
\<close>

fun sql_like :: "string \<Rightarrow> string \<Rightarrow> bool" where
  "sql_like [] t = (t = [])"
| "sql_like (p # ps) [] = (p = CHR ''%'' \<and> sql_like ps [])"
| "sql_like (p # ps) (c # cs) =
     (if p = CHR ''%'' then sql_like ps (c # cs) \<or> sql_like (p # ps) cs
      else if p = CHR ''_'' then sql_like ps cs
      else p = c \<and> sql_like ps cs)"

definition path_like :: "string \<Rightarrow> comment \<Rightarrow> bool" where
  "path_like pat r = (case path r of None \<Rightarrow> False | Some p \<Rightarrow> sql_like pat p)"

text \<open>\<open>String.prototype.split('.')\<close>: the pieces between the dots, at least one piece.\<close>

fun split_dot :: "string \<Rightarrow> string list" where
  "split_dot [] = [[]]"
| "split_dot (c # cs) =
     (if c = CHR ''.'' then [] # split_dot cs
      else (case split_dot cs of [] \<Rightarrow> [[c]] | w # ws \<Rightarrow> (c # w) # ws))"

text \<open>
  The result of \<open>findByIdWithChildren\<close> is a comment whose \<open>children\<close> field holds comments
  whose \<open>children\<close> fields are set in turn: a tree.
\<close>

datatype comment_tree = Node (root: comment) (children: "comment_tree list")

text \<open>
  \<open>comment.path && comment.path.split('.').includes(parentId)\<close>: the filter of
  \<open>buildNestedStructure\<close>.
\<close>

definition path_includes :: "string \<Rightarrow> comment \<Rightarrow> bool" where
  "path_includes i r =
     (case path r of None \<Rightarrow> False | Some p \<Rightarrow> p \<noteq> [] \<and> i \<in> set (split_dot p))"

text \<open>
  \<open>buildNestedStructure\<close> calls itself on every row it keeps, and does not return on a
  list in which a row's path names the row itself. The first argument bounds the depth of
  the recursion; \<open>None\<close> says that the bound was reached.
\<close>

fun buildNestedStructure :: "nat \<Rightarrow> comment list \<Rightarrow> string \<Rightarrow> comment_tree list option" where
  "buildNestedStructure 0 comments i = None"
| "buildNestedStructure (Suc n) comments i =
     those (map (\<lambda>child. map_option (Node child) (buildNestedStructure n comments (comment_id child)))
                (filter (path_includes i) comments))"

definition descendants_pattern :: "comment \<Rightarrow> string" where
  "descendants_pattern c =
     (case path c of None \<Rightarrow> [] | Some p \<Rightarrow> if p \<noteq> [] then p @ ''.'' else [])
       @ comment_id c @ ''%''"

definition subtree_rows :: "store \<Rightarrow> comment \<Rightarrow> string \<Rightarrow> comment list" where
  "subtree_rows s c i =
     sort_key createdAt (filter (\<lambda>r. path_like (descendants_pattern c) r \<and> comment_id r \<noteq> i) s)"

definition findByIdWithChildren :: "nat \<Rightarrow> store \<Rightarrow> string \<Rightarrow> comment_tree option option" where
  "findByIdWithChildren fuel s i =
     (case findById s i of
        None \<Rightarrow> Some None
      | Some c \<Rightarrow>
          map_option (\<lambda>ts. Some (Node c ts))
            (buildNestedStructure fuel (subtree_rows s c i) (comment_id c)))"

definition thread_root :: "comment \<Rightarrow> string \<Rightarrow> string" where
  "thread_root c commentId =
     (case path c of
        None \<Rightarrow> commentId
      | Some p \<Rightarrow>
          if p \<noteq> [] then (case split_dot p of [] \<Rightarrow> commentId | w # ws \<Rightarrow> w) else commentId)"

definition getThreadByComment :: "store \<Rightarrow> string \<Rightarrow> error + comment list" where
  "getThreadByComment s commentId =
     (case findById s commentId of
        None \<Rightarrow> Inl (NotFoundException ''Comment not found'')
      | Some c \<Rightarrow>
          (let rootId = thread_root c commentId
           in Inr (sort_key createdAt
                (filter (\<lambda>r. comment_id r = rootId \<or> path_like (rootId @ ''%'') r) s))))"

text \<open>
  \<open>findMany\<close>: the three states of the \<open>parentId\<close> option are kept apart, as
  \<open>parentId !== undefined\<close> and \<open>parentId === null\<close> do. The page is cut out of the
  filtered rows, newest first, and \<open>total\<close> counts all of them. Page and limit are
  natural numbers; page 0 asks for a negative offset, which the database rejects.
\<close>

datatype parent_filter = Undefined | Null | Value string

record findManyOptions =
  opt_page :: "nat option"
  opt_limit :: "nat option"
  opt_authorId :: "string option"
  opt_parentId :: parent_filter
  opt_includeDeleted :: "bool option"

record findManyResult =
  comments :: "comment list"
  total :: nat
  page :: nat
  limit :: nat

definition findMany_where :: "findManyOptions \<Rightarrow> comment \<Rightarrow> bool" where
  "findMany_where opts r =
     ((case opt_includeDeleted opts of Some True \<Rightarrow> True | _ \<Rightarrow> isDeleted r = False)
      \<and> (case opt_authorId opts of
            None \<Rightarrow> True
          | Some a \<Rightarrow> if a \<noteq> [] then authorId r = a else True)
      \<and> (case opt_parentId opts of
            Undefined \<Rightarrow> True
          | Null \<Rightarrow> parentId r = None
          | Value p \<Rightarrow> parentId r = Some p))"

definition findMany :: "store \<Rightarrow> findManyOptions \<Rightarrow> error + findManyResult" where
  "findMany s opts =
     (let pg = (case opt_page opts of None \<Rightarrow> 1 | Some n \<Rightarrow> n);
          lim = (case opt_limit opts of None \<Rightarrow> 10 | Some n \<Rightarrow> n);
          rows = rev (sort_key createdAt (filter (findMany_where opts) s))
      in if pg = 0 \<and> lim \<noteq> 0 then Inl QueryFailedError
         else Inr \<lparr>comments = take lim (drop ((pg - 1) * lim) rows),
                  total = length rows, page = pg, limit = lim\<rparr>)"

section \<open>Creation, one awaited call at a time\<close>

text \<open>
  \<open>create\<close> is an async function: at each \<open>await\<close> it hands control back, and another call
  of the service may run before it goes on. A call in progress is a \<open>create_call\<close> and the
  point it has reached; \<open>create_step\<close> performs the awaited operation the call is waiting
  on and the code after it up to the next \<open>await\<close>. Each database statement is one step.
\<close>

record create_call =
  call_content :: string
  call_author :: string
  call_parent :: "string option"
  call_newId :: string
  call_now :: int

datatype create_pc =
    AtFindParent string
  | AtUpdateCount string comment
  | AtSave "comment option" int string
  | AtNotify comment comment
  | AtReload comment
  | Settled "error + comment option"

definition create_start :: "create_call \<Rightarrow> create_pc" where
  "create_start k =
     (case call_parent k of
        None \<Rightarrow> AtSave None 0 []
      | Some pid \<Rightarrow> if pid = [] then AtSave None 0 [] else AtFindParent pid)"

fun create_step ::
  "database \<Rightarrow> (string \<Rightarrow> string \<Rightarrow> string \<Rightarrow> bool) \<Rightarrow> create_call \<Rightarrow> create_pc \<Rightarrow>
     store \<Rightarrow> create_pc \<times> store" where
  "create_step db notify k (AtFindParent pid) s =
     (case read_uuid (uuid_in db) pid of
        None \<Rightarrow> (Settled (Inl QueryFailedError), s)
      | Some u \<Rightarrow>
          (case findById s u of
             None \<Rightarrow> (Settled (Inl (NotFoundException ''Parent comment not found'')), s)
           | Some parent \<Rightarrow>
               if isDeleted parent then
                 (Settled (Inl (BadRequestException ''Cannot reply to deleted comment'')), s)
               else (AtUpdateCount u parent, s)))"
| "create_step db notify k (AtUpdateCount u parent) s =
     (AtSave (Some parent) (depth parent + 1) (child_path parent),
      update_childrenCount s u (childrenCount parent + 1) (call_now k))"
| "create_step db notify k (AtSave parent d p) s =
     (case insert_comment db (call_content k) (call_author k) (call_parent k) d p
             (call_newId k) (call_now k) of
        Inl e \<Rightarrow> (Settled (Inl e), s)
      | Inr savedComment \<Rightarrow>
          (let s' = s @ [savedComment]
           in case parent of
                None \<Rightarrow> (AtReload savedComment, s')
              | Some par \<Rightarrow>
                  if authorId par \<noteq> call_author k then (AtNotify par savedComment, s')
                  else (AtReload savedComment, s')))"
| "create_step db notify k (AtNotify par savedComment) s =
     (if notify (authorId par) (comment_id savedComment) (call_author k)
      then (AtReload savedComment, s)
      else (Settled (Inl NotificationRejected), s))"
| "create_step db notify k (AtReload savedComment) s =
     (Settled (Inr (findById s (comment_id savedComment))), s)"
| "create_step db notify k (Settled r) s = (Settled r, s)"

text \<open>
  Several calls in progress and a schedule: the list of the calls' indices in the order in
  which their awaited operations complete.
\<close>

fun run_schedule ::
  "database \<Rightarrow> (string \<Rightarrow> string \<Rightarrow> string \<Rightarrow> bool) \<Rightarrow> nat list \<Rightarrow>
     (create_call \<times> create_pc) list \<Rightarrow> store \<Rightarrow> (create_call \<times> create_pc) list \<times> store" where
  "run_schedule db notify [] calls s = (calls, s)"
| "run_schedule db notify (j # js) calls s =
     (if j < length calls then
        (let (k, pc) = calls ! j;
             (pc', s') = create_step db notify k pc s
         in run_schedule db notify js (calls[j := (k, pc')]) s')
      else run_schedule db notify js calls s)"

definition start_calls :: "create_call list \<Rightarrow> (create_call \<times> create_pc) list" where
  "start_calls ks = map (\<lambda>k. (k, create_start k)) ks"

section \<open>Fixtures\<close>

text \<open>A notification service that always succeeds, and one that always fails.\<close>

definition notify_ok :: "string \<Rightarrow> string \<Rightarrow> string \<Rightarrow> bool" where
  "notify_ok recipient commentId actor = True"

definition notify_fails :: "string \<Rightarrow> string \<Rightarrow> string \<Rightarrow> bool" where
  "notify_fails recipient commentId actor = False"

text \<open>A root comment \<open>A\<close> by user \<open>u1\<close>, created at time 0, as \<open>create\<close> stores it.\<close>

definition root_A :: comment where
  "root_A = new_comment ''first'' ''u1'' None 0 [] ''A'' 0"



text \<open>
  The rows of a thread \<open>A\<close>, \<open>B\<close>, \<open>C\<close> in which \<open>B\<close> replies to \<open>A\<close> and \<open>C\<close> to \<open>B\<close>; a
  reply that has been soft-deleted; and the default options of \<open>findMany\<close>.
\<close>

definition row_A :: comment where
  "row_A = root_A\<lparr>childrenCount := 1, updatedAt := 10\<rparr>"

definition row_B :: comment where
  "row_B = (new_comment ''second'' ''u2'' (Some ''A'') 1 ''A'' ''B'' 10)\<lparr>childrenCount := 1, updatedAt := 20\<rparr>"

definition row_C :: comment where
  "row_C = new_comment ''third'' ''u3'' (Some ''B'') 2 ''A.B'' ''C'' 20"

definition thread_ABC :: store where
  "thread_ABC = [row_A, row_B, row_C]"


definition default_options :: findManyOptions where
  "default_options = \<lparr>opt_page = None, opt_limit = None, opt_authorId = None,
                      opt_parentId = Undefined, opt_includeDeleted = None\<rparr>"

text \<open>
  A reading of uuid texts for the examples: it accepts the lowercase form of five groups
  of 8, 4, 4, 4 and 12 hexadecimal digits, which is the form in which the database returns
  a uuid, and refuses every other text.
\<close>

fun split_dash :: "string \<Rightarrow> string list" where
  "split_dash [] = [[]]"
| "split_dash (c # cs) =
     (if c = CHR ''-'' then [] # split_dash cs
      else (case split_dash cs of [] \<Rightarrow> [[c]] | w # ws \<Rightarrow> (c # w) # ws))"

definition hex_group :: "nat \<Rightarrow> string \<Rightarrow> bool" where
  "hex_group n g = (length g = n \<and> list_all (\<lambda>c. List.member ''0123456789abcdef'' c) g)"

definition uuid_lower :: "string \<Rightarrow> string option" where
  "uuid_lower txt =
     (case split_dash txt of
        [a, b, c, d, e] \<Rightarrow>
          if hex_group 8 a \<and> hex_group 4 b \<and> hex_group 4 c \<and> hex_group 4 d \<and> hex_group 12 e
          then Some txt else None
      | _ \<Rightarrow> None)"

text \<open>
  A database for the examples: it reads uuid texts in this way, and its users table holds
  a user under every id of this form.
\<close>

definition db_lower :: database where
  "db_lower = \<lparr>uuid_in = uuid_lower, user_in = uuid_lower\<rparr>"

text \<open>Ids of comments and of users for the examples, numbered from 0 to 99.\<close>

definition digit :: "nat \<Rightarrow> char" where
  "digit n = ''0123456789'' ! (n mod 10)"

definition comment_uuid :: "nat \<Rightarrow> string" where
  "comment_uuid n = ''00000000-0000-4000-8000-0000000000'' @ [digit (n div 10), digit n]"

definition user_uuid :: "nat \<Rightarrow> string" where
  "user_uuid n = ''aaaaaaaa-0000-4000-8000-0000000000'' @ [digit (n div 10), digit n]"

text \<open>
  A root comment by user 1, as \<open>create\<close> stores it, and two replies to it by users 2 and
  3 as calls in progress.
\<close>

definition root_0 :: comment where
  "root_0 = new_comment ''first'' (user_uuid 1) None 0 [] (comment_uuid 0) 0"

definition reply_1 :: create_call where
  "reply_1 = \<lparr>call_content = ''second'', call_author = user_uuid 2,
              call_parent = Some (comment_uuid 0), call_newId = comment_uuid 1, call_now = 10\<rparr>"

definition reply_2 :: create_call where
  "reply_2 = \<lparr>call_content = ''third'', call_author = user_uuid 3,
              call_parent = Some (comment_uuid 0), call_newId = comment_uuid 2, call_now = 11\<rparr>"

text \<open>Calls of \<open>create\<close> made one after the other, each on the table the previous one left.\<close>

fun create_in_turn ::
  "database \<Rightarrow> (string \<Rightarrow> string \<Rightarrow> string \<Rightarrow> bool) \<Rightarrow> store \<Rightarrow> create_call list \<Rightarrow>
     store" where
  "create_in_turn db notify s [] = s"
| "create_in_turn db notify s (k # ks) =
     create_in_turn db notify
       (snd (create db notify s (call_content k) (call_author k) (call_parent k)
               (call_newId k) (call_now k))) ks"

text \<open>
  A chain of replies: comment 0 is a root, and comment \<open>n + 1\<close> replies to comment \<open>n\<close>.
\<close>

fun reply_chain :: "nat \<Rightarrow> store" where
  "reply_chain 0 =
     snd (create db_lower notify_ok [] ''root'' (user_uuid 1) None (comment_uuid 0) 0)"
| "reply_chain (Suc n) =
     snd (create db_lower notify_ok (reply_chain n) ''reply'' (user_uuid 1)
            (Some (comment_uuid n)) (comment_uuid (Suc n)) (int (Suc n)))"

section \<open>Tables the service builds\<close>

text \<open>
  The tables that the operations build from the empty table, with ids generated fresh and,
  being uuids, free of dots. The database and the notification service may be any.
\<close>

inductive reachable :: "store \<Rightarrow> bool" where
  by_nothing: "reachable []"
| by_create:
    "reachable s \<Longrightarrow> findById s newId = None \<Longrightarrow> CHR ''.'' \<notin> set newId \<Longrightarrow>
     reachable (snd (create db notify s newContent author parent_id newId now))"
| by_update: "reachable s \<Longrightarrow> reachable (snd (update s i newContent userId now))"
| by_delete: "reachable s \<Longrightarrow> reachable (snd (delete s i userId now))"
| by_restore: "reachable s \<Longrightarrow> reachable (snd (restore s i userId now))"

text \<open>
  The length of a row's path, and the property that makes \<open>buildNestedStructure\<close> return: a
  row whose path names another row has the longer path of the two.
\<close>

definition plen :: "comment \<Rightarrow> nat" where
  "plen r = (case path r of None \<Rightarrow> 0 | Some p \<Rightarrow> length p)"

definition path_grows :: "comment list \<Rightarrow> bool" where
  "path_grows cs =
     list_all (\<lambda>q. list_all (\<lambda>r. path_includes (comment_id q) r \<longrightarrow> plen q < plen r) cs) cs"

text \<open>
  The invariant of the tables the service builds, over the id and the path of each row:
  ids are distinct and free of dots, every id that a path names is the id of a row, and
  paths grow.
\<close>

definition key :: "comment \<Rightarrow> string \<times> string option" where
  "key r = (comment_id r, path r)"

definition names :: "string \<Rightarrow> string option \<Rightarrow> bool" where
  "names j p = (case p of None \<Rightarrow> False | Some q \<Rightarrow> q \<noteq> [] \<and> j \<in> set (split_dot q))"

definition olen :: "string option \<Rightarrow> nat" where
  "olen p = (case p of None \<Rightarrow> 0 | Some q \<Rightarrow> length q)"

definition cpath :: "string \<Rightarrow> string option \<Rightarrow> string" where
  "cpath i p = (case p of None \<Rightarrow> i | Some q \<Rightarrow> if q \<noteq> [] then q @ ''.'' @ i else i)"

definition keys_ok :: "(string \<times> string option) list \<Rightarrow> bool" where
  "keys_ok ks =
     (distinct (map fst ks)
      \<and> (\<forall>k \<in> set ks. CHR ''.'' \<notin> set (fst k))
      \<and> (\<forall>k \<in> set ks. \<forall>j. names j (snd k) \<longrightarrow> j \<in> fst ` set ks)
      \<and> (\<forall>k \<in> set ks. \<forall>k' \<in> set ks. names (fst k) (snd k') \<longrightarrow> olen (snd k) < olen (snd k')))"

definition table_ok :: "store \<Rightarrow> bool" where
  "table_ok s = keys_ok (map key s)"

text \<open>
  A root comment by user 1, a reply to it by user 2, and the table after the reply has been
  soft-deleted by its author.
\<close>

definition deleted_reply_1 :: comment where
  "deleted_reply_1 =
     (new_comment ''second'' (user_uuid 2) (Some (comment_uuid 0)) 1 (comment_uuid 0)
        (comment_uuid 1) 10)
       \<lparr>isDeleted := True, deletedAt := Some 20, updatedAt := 20\<rparr>"

definition thread_0_with_deleted :: store where
  "thread_0_with_deleted = [root_0\<lparr>childrenCount := 1, updatedAt := 10\<rparr>, deleted_reply_1]"

section \<open>Lookup and save\<close>

lemma findById_rewrite:
  "findById s i = Some c \<Longrightarrow> comment_id c' = i \<Longrightarrow>
   findById (map (\<lambda>r. if comment_id r = i then c' else r) s) i = Some c'"
  unfolding findById_def by (induction s) (auto split: if_splits)

lemma findById_id: "findById s i = Some c \<Longrightarrow> comment_id c = i"
  unfolding findById_def by (auto simp: find_Some_iff)

lemma findById_mem: "findById s i = Some c \<Longrightarrow> c \<in> set s"
  unfolding findById_def by (auto simp: find_Some_iff)

lemma findById_append_fresh:
  "findById s i = None \<Longrightarrow> comment_id c = i \<Longrightarrow> findById (s @ [c]) i = Some c"
  unfolding findById_def by (induction s) (auto split: if_splits)

lemma findById_update_childrenCount_None:
  "findById s i = None \<Longrightarrow> findById (update_childrenCount s p n t) i = None"
  unfolding findById_def update_childrenCount_def by (induction s) (auto split: if_splits)

lemma findById_map:
  "(\<And>r. comment_id (f r) = comment_id r) \<Longrightarrow> findById (map f s) j = map_option f (findById s j)"
  unfolding findById_def by (induction s) auto

lemma save_fst: "fst (save s c now) = c\<lparr>updatedAt := now\<rparr>"
  by (simp add: save_def Let_def)

lemma save_findById:
  "findById s i = Some c \<Longrightarrow> comment_id c' = i \<Longrightarrow>
   findById (snd (save s c' now)) i = Some (c'\<lparr>updatedAt := now\<rparr>)"
  using findById_rewrite [of s i c "c'\<lparr>updatedAt := now\<rparr>"]
  by (simp add: save_def Let_def)


section \<open>Edit, soft-delete and restore: properties\<close>

subsection \<open>Fields that stay\<close>















subsection \<open>Mutation policy\<close>

text \<open>
  Claim C4, as stated, at the end of the window: a comment created at time 0 and not
  deleted satisfies \<open>now - createdAt \<le> 15 minutes\<close> at \<open>now = 900000\<close>, and is neither
  editable nor deletable then.
\<close>

theorem window_boundary_counterexample:
  "900000 - createdAt root_A \<le> 15 * 60 * 1000 \<and> \<not> isDeleted root_A
   \<and> \<not> isEditable 900000 root_A \<and> \<not> isDeletable 900000 root_A"
  by (simp add: root_A_def new_comment_def isEditable_def isDeletable_def fifteenMinutesAgo_def)

text \<open>
  Claim C4, amended. The window is open strictly less than 15 minutes: a comment is
  editable iff \<open>now - createdAt < 15 minutes\<close> and it is not soft-deleted, deletable iff
  \<open>now - createdAt < 15 minutes\<close> (deleted or not), and restorable iff it is soft-deleted,
  \<open>deletedAt\<close> is set and \<open>now - deletedAt < 15 minutes\<close>.
\<close>

theorem mutation_policy_windows:
  "(isEditable now c \<longleftrightarrow> now - createdAt c < 15 * 60 * 1000 \<and> \<not> isDeleted c)
   \<and> (isDeletable now c \<longleftrightarrow> now - createdAt c < 15 * 60 * 1000)
   \<and> (isRestorable now c \<longleftrightarrow>
        isDeleted c \<and> (\<exists>d. deletedAt c = Some d \<and> now - d < 15 * 60 * 1000))"
  by (auto simp: isEditable_def isDeletable_def isRestorable_def fifteenMinutesAgo_def
           split: option.splits)

theorem mutation_policy_windows_witness:
  "isEditable 899999 root_A \<and> isDeletable 899999 (root_A\<lparr>isDeleted := True, deletedAt := Some 5\<rparr>)
   \<and> \<not> isEditable 899999 (root_A\<lparr>isDeleted := True, deletedAt := Some 5\<rparr>)
   \<and> isRestorable 900004 (root_A\<lparr>isDeleted := True, deletedAt := Some 5\<rparr>)
   \<and> \<not> isRestorable 900005 (root_A\<lparr>isDeleted := True, deletedAt := Some 5\<rparr>)"
  using mutation_policy_windows [of 899999 root_A]
    mutation_policy_windows [of 899999 "root_A\<lparr>isDeleted := True, deletedAt := Some 5\<rparr>"]
    mutation_policy_windows [of 900004 "root_A\<lparr>isDeleted := True, deletedAt := Some 5\<rparr>"]
    mutation_policy_windows [of 900005 "root_A\<lparr>isDeleted := True, deletedAt := Some 5\<rparr>"]
  by (simp add: root_A_def new_comment_def)

subsection \<open>Ownership\<close>

text \<open>
  Claim C6. For an existing comment and a requester who is not its author, edit, delete
  and restore each throw \<open>ForbiddenException\<close> (Forbidden) whatever the time and the
  comment's flags, and the table is left as it was.
\<close>

theorem non_author_is_forbidden:
  assumes "findById s i = Some c" and "userId \<noteq> authorId c"
  shows "update s i t userId now = (Inl (ForbiddenException ''You can only edit your own comments''), s)
         \<and> delete s i userId now = (Inl (ForbiddenException ''You can only delete your own comments''), s)
         \<and> restore s i userId now = (Inl (ForbiddenException ''You can only restore your own comments''), s)"
  using assms by (auto simp: update_def delete_def restore_def)

theorem non_author_is_forbidden_witness:
  "findById [root_A] ''A'' = Some root_A \<and> ''u2'' \<noteq> authorId root_A
   \<and> update [root_A] ''A'' ''x'' ''u2'' 1000 = (Inl (ForbiddenException ''You can only edit your own comments''), [root_A])
   \<and> delete [root_A] ''A'' ''u2'' 1000 = (Inl (ForbiddenException ''You can only delete your own comments''), [root_A])
   \<and> restore [root_A] ''A'' ''u2'' 1000 = (Inl (ForbiddenException ''You can only restore your own comments''), [root_A])"
proof -
  have f: "findById [root_A] ''A'' = Some root_A"
    by (simp add: findById_def root_A_def new_comment_def)
  have a: "''u2'' \<noteq> authorId root_A"
    by (simp add: root_A_def new_comment_def)
  show ?thesis using f a non_author_is_forbidden [OF f a] by simp
qed

subsection \<open>Editing a soft-deleted comment\<close>

text \<open>
  \<open>BadRequestException\<close> is the exception behind InvalidState. \<open>update\<close> tests
  \<open>isEditable\<close>, which is false for a soft-deleted comment, before it tests \<open>isDeleted\<close>:
  the branch that throws \<open>BadRequestException\<close> is never reached.
\<close>

lemma update_never_BadRequest: "fst (update s i t u now) \<noteq> Inl (BadRequestException m)"
  by (auto simp: update_def isEditable_def Let_def split_beta split: option.splits)

text \<open>
  Claim C7 at a concrete comment: the author \<open>u1\<close> soft-deletes comment \<open>A\<close> at time 1000
  and edits it at time 2000. The edit is refused with \<open>ForbiddenException\<close> and the message
  of the elapsed window, not with \<open>BadRequestException\<close>.
\<close>

theorem edit_of_deleted_comment_is_forbidden:
  "findById (snd (delete [root_A] ''A'' ''u1'' 1000)) ''A''
     = Some (root_A\<lparr>isDeleted := True, deletedAt := Some 1000, updatedAt := 1000\<rparr>)
   \<and> fst (update (snd (delete [root_A] ''A'' ''u1'' 1000)) ''A'' ''edited'' ''u1'' 2000)
     = Inl (ForbiddenException ''Comment can only be edited within 15 minutes of posting'')"
  by (simp add: root_A_def new_comment_def findById_def update_def delete_def isEditable_def
        isDeletable_def fifteenMinutesAgo_def save_def Let_def)

subsection \<open>Flags and timestamps\<close>

lemma update_succeeds:
  assumes "findById s i = Some c" and "authorId c = userId" and "isEditable now c"
  shows "fst (update s i t userId now) =
           Inr (c\<lparr>originalContent := (if isEdited c then originalContent c else Some (content c)),
                  content := t, isEdited := True, editedAt := Some now, updatedAt := now\<rparr>)"
    and "findById (snd (update s i t userId now)) i =
           Some (c\<lparr>originalContent := (if isEdited c then originalContent c else Some (content c)),
                  content := t, isEdited := True, editedAt := Some now, updatedAt := now\<rparr>)"
proof -
  have nd: "\<not> isDeleted c" using assms(3) by (simp add: isEditable_def)
  let ?c2 = "(if \<not> isEdited c then c\<lparr>originalContent := Some (content c)\<rparr> else c)
               \<lparr>content := t, isEdited := True, editedAt := Some now\<rparr>"
  have id2: "comment_id ?c2 = i" using findById_id [OF assms(1)] by simp
  have u: "update s i t userId now = (Inr (fst (save s ?c2 now)), snd (save s ?c2 now))"
    using assms nd by (simp add: update_def Let_def split_beta)
  show "fst (update s i t userId now) =
           Inr (c\<lparr>originalContent := (if isEdited c then originalContent c else Some (content c)),
                  content := t, isEdited := True, editedAt := Some now, updatedAt := now\<rparr>)"
    using u by (simp add: save_fst)
  show "findById (snd (update s i t userId now)) i =
           Some (c\<lparr>originalContent := (if isEdited c then originalContent c else Some (content c)),
                  content := t, isEdited := True, editedAt := Some now, updatedAt := now\<rparr>)"
    using u save_findById [OF assms(1) id2, of now] by simp
qed

lemma delete_succeeds:
  assumes "findById s i = Some c" and "authorId c = userId" and "isDeletable now c"
  shows "fst (delete s i userId now) =
           Inr (c\<lparr>isDeleted := True, deletedAt := Some now, updatedAt := now\<rparr>)"
    and "findById (snd (delete s i userId now)) i =
           Some (c\<lparr>isDeleted := True, deletedAt := Some now, updatedAt := now\<rparr>)"
proof -
  let ?c1 = "c\<lparr>isDeleted := True, deletedAt := Some now\<rparr>"
  have id1: "comment_id ?c1 = i" using findById_id [OF assms(1)] by simp
  have u: "delete s i userId now = (Inr (fst (save s ?c1 now)), snd (save s ?c1 now))"
    using assms by (simp add: delete_def Let_def split_beta)
  show "fst (delete s i userId now) =
           Inr (c\<lparr>isDeleted := True, deletedAt := Some now, updatedAt := now\<rparr>)"
    using u by (simp add: save_fst)
  show "findById (snd (delete s i userId now)) i =
           Some (c\<lparr>isDeleted := True, deletedAt := Some now, updatedAt := now\<rparr>)"
    using u save_findById [OF assms(1) id1, of now] by simp
qed

lemma restore_succeeds:
  assumes "findById s i = Some c" and "authorId c = userId" and "isRestorable now c"
  shows "fst (restore s i userId now) =
           Inr (c\<lparr>isDeleted := False, deletedAt := None, restoredAt := Some now, updatedAt := now\<rparr>)"
    and "findById (snd (restore s i userId now)) i =
           Some (c\<lparr>isDeleted := False, deletedAt := None, restoredAt := Some now, updatedAt := now\<rparr>)"
proof -
  let ?c1 = "c\<lparr>isDeleted := False, deletedAt := None, restoredAt := Some now\<rparr>"
  have id1: "comment_id ?c1 = i" using findById_id [OF assms(1)] by simp
  have u: "restore s i userId now = (Inr (fst (save s ?c1 now)), snd (save s ?c1 now))"
    using assms by (simp add: restore_def Let_def split_beta)
  show "fst (restore s i userId now) =
           Inr (c\<lparr>isDeleted := False, deletedAt := None, restoredAt := Some now, updatedAt := now\<rparr>)"
    using u by (simp add: save_fst)
  show "findById (snd (restore s i userId now)) i =
           Some (c\<lparr>isDeleted := False, deletedAt := None, restoredAt := Some now, updatedAt := now\<rparr>)"
    using u save_findById [OF assms(1) id1, of now] by simp
qed

lemma two_edits:
  assumes f: "findById s i = Some c" and a: "authorId c = userId" and ne: "\<not> isEdited c"
    and e1: "isEditable now1 c" and e2: "isEditable now2 c"
  shows "fst (update (snd (update s i t1 userId now1)) i t2 userId now2) =
           Inr (c\<lparr>originalContent := Some (content c), content := t2, isEdited := True,
                  editedAt := Some now2, updatedAt := now2\<rparr>)"
proof -
  let ?c1 = "c\<lparr>originalContent := Some (content c), content := t1, isEdited := True,
               editedAt := Some now1, updatedAt := now1\<rparr>"
  have f1: "findById (snd (update s i t1 userId now1)) i = Some ?c1"
    using update_succeeds(2) [OF f a e1, of t1] ne by simp
  have a1: "authorId ?c1 = userId" using a by simp
  have e1': "isEditable now2 ?c1" using e2 by (simp add: isEditable_def)
  show ?thesis using update_succeeds(1) [OF f1 a1 e1', of t2] by simp
qed

text \<open>
  Claim C5. When the requester is the author and the window predicate holds, the call
  returns, and stores under the comment's id, the comment with exactly these changes.
  Edit: the new content, \<open>isEdited = true\<close>, \<open>editedAt = now\<close>, and \<open>originalContent\<close> set to
  the previous content only if the comment had not been edited before; so after two edits
  of a comment that had not been edited, \<open>originalContent\<close> is the content at creation and
  \<open>content\<close> the latest text. Delete: \<open>isDeleted = true\<close>, \<open>deletedAt = now\<close>. Restore:
  \<open>isDeleted = false\<close>, \<open>deletedAt\<close> cleared, \<open>restoredAt = now\<close>. The save stamps
  \<open>updatedAt\<close> in each case.
\<close>

theorem mutations_set_flags_and_timestamps:
  assumes "findById s i = Some c" and "authorId c = userId"
  shows "(isEditable now c \<longrightarrow>
            fst (update s i t userId now) =
              Inr (c\<lparr>originalContent := (if isEdited c then originalContent c else Some (content c)),
                     content := t, isEdited := True, editedAt := Some now, updatedAt := now\<rparr>)
            \<and> findById (snd (update s i t userId now)) i = 
              Some (c\<lparr>originalContent := (if isEdited c then originalContent c else Some (content c)),
                     content := t, isEdited := True, editedAt := Some now, updatedAt := now\<rparr>))
       \<and> (\<not> isEdited c \<and> isEditable now c \<and> isEditable now2 c \<longrightarrow>
            fst (update (snd (update s i t userId now)) i t2 userId now2) =
              Inr (c\<lparr>originalContent := Some (content c), content := t2, isEdited := True,
                     editedAt := Some now2, updatedAt := now2\<rparr>))
       \<and> (isDeletable now c \<longrightarrow>
            fst (delete s i userId now) =
              Inr (c\<lparr>isDeleted := True, deletedAt := Some now, updatedAt := now\<rparr>)
            \<and> findById (snd (delete s i userId now)) i =
              Some (c\<lparr>isDeleted := True, deletedAt := Some now, updatedAt := now\<rparr>))
       \<and> (isRestorable now c \<longrightarrow>
            fst (restore s i userId now) =
              Inr (c\<lparr>isDeleted := False, deletedAt := None, restoredAt := Some now, updatedAt := now\<rparr>)
            \<and> findById (snd (restore s i userId now)) i =
              Some (c\<lparr>isDeleted := False, deletedAt := None, restoredAt := Some now, updatedAt := now\<rparr>))"
  using update_succeeds [OF assms] two_edits [OF assms] delete_succeeds [OF assms]
    restore_succeeds [OF assms]
  by blast


theorem mutations_set_flags_and_timestamps_witness:
  "findById [root_A] ''A'' = Some root_A \<and> authorId root_A = ''u1'' \<and> \<not> isEdited root_A
   \<and> isEditable 1000 root_A \<and> isEditable 2000 root_A \<and> isDeletable 1000 root_A
   \<and> fst (update [root_A] ''A'' ''e1'' ''u1'' 1000) =
        Inr (root_A\<lparr>originalContent := Some ''first'', content := ''e1'', isEdited := True,
                    editedAt := Some 1000, updatedAt := 1000\<rparr>)
   \<and> fst (update (snd (update [root_A] ''A'' ''e1'' ''u1'' 1000)) ''A'' ''e2'' ''u1'' 2000) =
        Inr (root_A\<lparr>originalContent := Some ''first'', content := ''e2'', isEdited := True,
                    editedAt := Some 2000, updatedAt := 2000\<rparr>)
   \<and> fst (delete [root_A] ''A'' ''u1'' 1000) =
        Inr (root_A\<lparr>isDeleted := True, deletedAt := Some 1000, updatedAt := 1000\<rparr>)
   \<and> isRestorable 2000 (root_A\<lparr>isDeleted := True, deletedAt := Some 1000, updatedAt := 1000\<rparr>)
   \<and> fst (restore (snd (delete [root_A] ''A'' ''u1'' 1000)) ''A'' ''u1'' 2000) =
        Inr (root_A\<lparr>isDeleted := False, deletedAt := None, restoredAt := Some 2000,
                    updatedAt := 2000\<rparr>)"
proof -
  let ?d = "root_A\<lparr>isDeleted := True, deletedAt := Some 1000, updatedAt := 1000\<rparr>"
  have f: "findById [root_A] ''A'' = Some root_A"
    by (simp add: findById_def root_A_def new_comment_def)
  have a: "authorId root_A = ''u1''" and ne: "\<not> isEdited root_A"
    by (simp_all add: root_A_def new_comment_def)
  have w: "isEditable 1000 root_A" "isEditable 2000 root_A" "isDeletable 1000 root_A"
    by (simp_all add: root_A_def new_comment_def isEditable_def isDeletable_def
          fifteenMinutesAgo_def)
  note t1 = mutations_set_flags_and_timestamps [OF f a, of 1000 "''e1''" 2000 "''e2''"]
  have fd: "findById (snd (delete [root_A] ''A'' ''u1'' 1000)) ''A'' = Some ?d"
    using t1 w by simp
  have ad: "authorId ?d = ''u1''" using a by simp
  have r: "isRestorable 2000 ?d"
    by (simp add: isRestorable_def fifteenMinutesAgo_def)
  note t2 = mutations_set_flags_and_timestamps [OF fd ad, of 2000 "''x''" 2000 "''x''"]
  show ?thesis using f a ne w r t1 t2 by (simp add: root_A_def new_comment_def)
qed

section \<open>Creation: properties\<close>

lemma findById_append: "findById s i = Some c \<Longrightarrow> findById (s @ s') i = Some c"
  unfolding findById_def by (induction s) (auto split: if_splits)

lemma findById_append_None:
  "findById s j = None \<Longrightarrow> findById (s @ s') j = findById s' j"
  unfolding findById_def by (induction s) (auto split: if_splits)

lemma findById_update_childrenCount_self:
  "findById s p = Some parent \<Longrightarrow>
   findById (update_childrenCount s p n t) p = Some (parent\<lparr>childrenCount := n, updatedAt := t\<rparr>)"
  using findById_map [of "\<lambda>r. if comment_id r = p then r\<lparr>childrenCount := n, updatedAt := t\<rparr> else r" s p]
    findById_id [of s p parent]
  by (simp add: update_childrenCount_def)

lemma insert_comment_reply:
  "read_uuid (user_in db) a = Some ua \<Longrightarrow> pid \<noteq> [] \<Longrightarrow> uuid_in db pid = Some u \<Longrightarrow>
   insert_comment db t a (Some pid) d p newId now =
     (if length p > 500 then Inl QueryFailedError
      else Inr (new_comment t ua (Some u) d p newId now))"
  by (simp add: insert_comment_def read_uuid_def)

lemma insert_comment_id:
  "insert_comment db t a parent_id d p newId now = Inr n \<Longrightarrow> comment_id n = newId"
  by (auto simp: insert_comment_def new_comment_def split: option.splits if_splits)

lemma create_root:
  assumes "findById s newId = None" and "read_uuid (user_in db) a = Some ua"
  shows "create db notify s t a None newId now =
           (Inr (Some (new_comment t ua None 0 [] newId now)),
            s @ [new_comment t ua None 0 [] newId now])"
proof -
  have "findById (s @ [new_comment t ua None 0 [] newId now]) newId
          = Some (new_comment t ua None 0 [] newId now)"
    using findById_append_fresh [OF assms(1)] by (simp add: new_comment_def)
  then show ?thesis
    using assms(2)
    by (simp add: create_def save_and_notify_def insert_comment_def Let_def new_comment_def)
qed

lemma create_empty_parent:
  "create db notify s t a (Some []) newId now = (Inl QueryFailedError, s)"
  by (simp add: create_def save_and_notify_def insert_comment_def read_uuid_def
           split: option.splits)

lemma create_parent_refused:
  "pid \<noteq> [] \<Longrightarrow> uuid_in db pid = None \<Longrightarrow>
   create db notify s t a (Some pid) newId now = (Inl QueryFailedError, s)"
  by (simp add: create_def read_uuid_def)

lemma create_parent_missing:
  "pid \<noteq> [] \<Longrightarrow> uuid_in db pid = Some u \<Longrightarrow> findById s u = None \<Longrightarrow>
   create db notify s t a (Some pid) newId now =
     (Inl (NotFoundException ''Parent comment not found''), s)"
  by (simp add: create_def read_uuid_def)

lemma create_parent_deleted:
  "pid \<noteq> [] \<Longrightarrow> uuid_in db pid = Some u \<Longrightarrow> findById s u = Some parent \<Longrightarrow> isDeleted parent \<Longrightarrow>
   create db notify s t a (Some pid) newId now =
     (Inl (BadRequestException ''Cannot reply to deleted comment''), s)"
  by (simp add: create_def read_uuid_def)

text \<open>
  Whatever the database makes of the INSERT, a reply to a parent that is found and not
  soft-deleted leaves the table with the parent's counter written and at most the new row
  added.
\<close>

lemma create_reply_store:
  assumes "pid \<noteq> []" and "uuid_in db pid = Some u" and "findById s u = Some parent"
    and "\<not> isDeleted parent"
  shows "snd (create db notify s t a (Some pid) newId now) =
           update_childrenCount s u (childrenCount parent + 1) now
         \<or> (\<exists>n. comment_id n = newId
                \<and> snd (create db notify s t a (Some pid) newId now) =
                    update_childrenCount s u (childrenCount parent + 1) now @ [n])"
proof -
  let ?s1 = "update_childrenCount s u (childrenCount parent + 1) now"
  have c: "create db notify s t a (Some pid) newId now =
             save_and_notify db notify ?s1 t a (Some pid) (Some parent) (depth parent + 1)
               (child_path parent) newId now"
    using assms by (simp add: create_def read_uuid_def Let_def)
  show ?thesis
  proof (cases "insert_comment db t a (Some pid) (depth parent + 1) (child_path parent) newId now")
    case (Inl e)
    then show ?thesis using c by (simp add: save_and_notify_def)
  next
    case (Inr n)
    then have "snd (create db notify s t a (Some pid) newId now) = ?s1 @ [n]"
      using c by (simp add: save_and_notify_def Let_def)
    then show ?thesis using insert_comment_id [OF Inr] by blast
  qed
qed

lemma create_reply_counts:
  assumes "pid \<noteq> []" and "uuid_in db pid = Some u" and "findById s u = Some parent"
    and "\<not> isDeleted parent"
  shows "findById (snd (create db notify s t a (Some pid) newId now)) u =
           Some (parent\<lparr>childrenCount := childrenCount parent + 1, updatedAt := now\<rparr>)"
  using create_reply_store [where db = db and pid = pid and u = u, OF assms, of notify t a newId now]
    findById_update_childrenCount_self [OF assms(3), of "childrenCount parent + 1" now]
  by (auto simp: findById_append)

lemma create_reply_keeps_fresh:
  assumes "pid \<noteq> []" and "uuid_in db pid = Some u" and "findById s u = Some parent"
    and "\<not> isDeleted parent" and "findById s j = None" and "j \<noteq> newId"
  shows "findById (snd (create db notify s t a (Some pid) newId now)) j = None"
proof -
  let ?s1 = "update_childrenCount s u (childrenCount parent + 1) now"
  have f1: "findById ?s1 j = None"
    using findById_update_childrenCount_None [OF assms(5)] .
  have "findById (?s1 @ [n]) j = None" if "comment_id n = newId" for n
  proof -
    have "findById (?s1 @ [n]) j = findById [n] j" using f1 by (rule findById_append_None)
    then show ?thesis using that assms(6) by (simp add: findById_def)
  qed
  then show ?thesis
    using create_reply_store [where db = db and pid = pid and u = u, OF assms(1-4),
            of notify t a newId now] f1
    by auto
qed

lemma create_reply:
  assumes "pid \<noteq> []" and "uuid_in db pid = Some u" and "findById s u = Some parent"
    and "\<not> isDeleted parent" and "findById s newId = None"
    and "length (child_path parent) \<le> 500" and "read_uuid (user_in db) a = Some ua"
  shows "snd (create db notify s t a (Some pid) newId now) =
           update_childrenCount s u (childrenCount parent + 1) now
             @ [new_comment t ua (Some u) (depth parent + 1) (child_path parent) newId now]"
    and "findById (snd (create db notify s t a (Some pid) newId now)) newId =
           Some (new_comment t ua (Some u) (depth parent + 1) (child_path parent) newId now)"
    and "fst (create db notify s t a (Some pid) newId now) =
           (if authorId parent \<noteq> a \<and> \<not> notify (authorId parent) newId a
            then Inl NotificationRejected
            else Inr (Some (new_comment t ua (Some u) (depth parent + 1) (child_path parent) newId now)))"
proof -
  let ?n = "new_comment t ua (Some u) (depth parent + 1) (child_path parent) newId now"
  let ?s1 = "update_childrenCount s u (childrenCount parent + 1) now"
  have c: "create db notify s t a (Some pid) newId now =
             save_and_notify db notify ?s1 t a (Some pid) (Some parent) (depth parent + 1)
               (child_path parent) newId now"
    using assms by (simp add: create_def read_uuid_def Let_def)
  have ins: "insert_comment db t a (Some pid) (depth parent + 1) (child_path parent) newId now
               = Inr ?n"
    using insert_comment_reply [where db = db and pid = pid and u = u,
            OF assms(7) assms(1) assms(2)] assms(6) by simp
  have idn: "comment_id ?n = newId" by (simp add: new_comment_def)
  have fr: "findById ?s1 newId = None"
    using findById_update_childrenCount_None [OF assms(5)] .
  have fn: "findById (?s1 @ [?n]) newId = Some ?n"
    using findById_append_fresh [OF fr idn] .
  show s': "snd (create db notify s t a (Some pid) newId now) = ?s1 @ [?n]"
    using c ins by (simp add: save_and_notify_def Let_def)
  then show "findById (snd (create db notify s t a (Some pid) newId now)) newId = Some ?n"
    using fn by simp
  show "fst (create db notify s t a (Some pid) newId now) =
           (if authorId parent \<noteq> a \<and> \<not> notify (authorId parent) newId a
            then Inl NotificationRejected else Inr (Some ?n))"
    using c ins fn idn by (simp add: save_and_notify_def Let_def)
qed

lemma create_reply_refused:
  assumes "pid \<noteq> []" and "uuid_in db pid = Some u" and "findById s u = Some parent"
    and "\<not> isDeleted parent" and "findById s newId = None"
    and "500 < length (child_path parent)"
  shows "create db notify s t a (Some pid) newId now =
           (Inl QueryFailedError, update_childrenCount s u (childrenCount parent + 1) now)"
    and "findById (snd (create db notify s t a (Some pid) newId now)) newId = None"
proof -
  let ?s1 = "update_childrenCount s u (childrenCount parent + 1) now"
  have ins: "insert_comment db t a (Some pid) (depth parent + 1) (child_path parent) newId now
               = Inl QueryFailedError"
    using assms(1,2,6) by (simp add: insert_comment_def read_uuid_def split: option.splits)
  show c: "create db notify s t a (Some pid) newId now = (Inl QueryFailedError, ?s1)"
    using assms(1-4) ins by (simp add: create_def read_uuid_def save_and_notify_def Let_def)
  show "findById (snd (create db notify s t a (Some pid) newId now)) newId = None"
    using c findById_update_childrenCount_None [OF assms(5)] by simp
qed

subsection \<open>Ancestry\<close>

text \<open>
  \<open>NotFoundException\<close> is the exception behind NotFound and \<open>BadRequestException\<close> the one
  behind InvalidState; \<open>QueryFailedError\<close> is the database's refusal of a statement.

  Claim C3, as stated, at three inputs. At \<open>parentId = ''\<close> and at \<open>parentId = 'abc'\<close> the
  parent id is given and no comment has that id (the table is empty), and creation does not
  fail with \<open>NotFoundException\<close>: the database refuses the text as a uuid. At a reply to the
  comment at depth 13 of a chain of replies, the parent exists and is not soft-deleted, and
  creation fails: the path of 517 characters does not fit the column.
\<close>

theorem parentId_not_a_uuid_counterexample:
  "findById [] [] = None
   \<and> create db_lower notify_ok [] ''hello'' (user_uuid 1) (Some []) (comment_uuid 0) 0
       = (Inl QueryFailedError, [])
   \<and> findById [] ''abc'' = None
   \<and> create db_lower notify_ok [] ''hello'' (user_uuid 1) (Some ''abc'') (comment_uuid 0) 0
       = (Inl QueryFailedError, [])
   \<and> map_option isDeleted (findById (reply_chain 13) (comment_uuid 13)) = Some False
   \<and> fst (create db_lower notify_ok (reply_chain 13) ''deep'' (user_uuid 2)
             (Some (comment_uuid 13)) (comment_uuid 14) 14) = Inl QueryFailedError"
  by code_simp

text \<open>
  Claim C3, amended. For a fresh generated id and an author whom the users table holds:
  if \<open>parentId\<close> is absent, the new comment
  has depth 0 and the empty path; if \<open>parentId\<close> is the empty string, or a text that the
  database does not read as a uuid, creation fails with \<open>QueryFailedError\<close> and the table
  is unchanged; if \<open>parentId\<close> is read as a uuid and no comment has that id, creation
  fails with \<open>NotFoundException\<close>; if the parent is soft-deleted, creation fails with
  \<open>BadRequestException\<close>; otherwise, when the parent's path extended by the parent's id has
  at most 500 characters, the new comment, which is the row stored under the new id and the
  comment returned whenever creation returns one, has \<open>depth = parent.depth + 1\<close> and
  \<open>path = parent.id\<close> when \<open>parent.path\<close> is null or empty, else
  \<open>parent.path + '.' + parent.id\<close>; when it has more than 500 characters, creation fails
  with \<open>QueryFailedError\<close> and no comment is stored under the new id.
\<close>

theorem create_assigns_ancestry:
  assumes "findById s newId = None" and "read_uuid (user_in db) a = Some ua"
  shows "(parent_id = None \<longrightarrow>
            (\<exists>c. fst (create db notify s t a parent_id newId now) = Inr (Some c)
                 \<and> depth c = 0 \<and> path c = Some []))
       \<and> (parent_id = Some [] \<longrightarrow>
            create db notify s t a parent_id newId now = (Inl QueryFailedError, s))
       \<and> (\<forall>pid. parent_id = Some pid \<and> pid \<noteq> [] \<longrightarrow>
            (uuid_in db pid = None \<longrightarrow>
               create db notify s t a parent_id newId now = (Inl QueryFailedError, s))
          \<and> (\<forall>u. uuid_in db pid = Some u \<longrightarrow>
               (findById s u = None \<longrightarrow>
                  create db notify s t a parent_id newId now =
                    (Inl (NotFoundException ''Parent comment not found''), s))
             \<and> (\<forall>parent. findById s u = Some parent \<longrightarrow>
                  (isDeleted parent \<longrightarrow>
                     create db notify s t a parent_id newId now =
                       (Inl (BadRequestException ''Cannot reply to deleted comment''), s))
                \<and> (\<not> isDeleted parent \<and> length (child_path parent) \<le> 500 \<longrightarrow>
                     (\<exists>c. findById (snd (create db notify s t a parent_id newId now)) newId
                            = Some c
                          \<and> (\<forall>r. fst (create db notify s t a parent_id newId now) = Inr r
                                 \<longrightarrow> r = Some c)
                          \<and> depth c = depth parent + 1
                          \<and> path c = Some (case path parent of
                                             None \<Rightarrow> comment_id parent
                                           | Some p \<Rightarrow> if p = [] then comment_id parent
                                                       else p @ ''.'' @ comment_id parent)))
                \<and> (\<not> isDeleted parent \<and> 500 < length (child_path parent) \<longrightarrow>
                     fst (create db notify s t a parent_id newId now) = Inl QueryFailedError
                     \<and> findById (snd (create db notify s t a parent_id newId now)) newId
                         = None))))"
proof -
  have 1: "parent_id = None \<longrightarrow>
            (\<exists>c. fst (create db notify s t a parent_id newId now) = Inr (Some c)
                 \<and> depth c = 0 \<and> path c = Some [])"
    using create_root [OF assms, of notify t now] by (simp add: new_comment_def)
  have 2: "parent_id = Some [] \<longrightarrow>
            create db notify s t a parent_id newId now = (Inl QueryFailedError, s)"
    using create_empty_parent [of db notify s t a newId now] by simp
  have 3: "create db notify s t a parent_id newId now = (Inl QueryFailedError, s)"
    if "parent_id = Some pid \<and> pid \<noteq> []" and "uuid_in db pid = None" for pid
    using that create_parent_refused [of pid db notify s t a newId now] by simp
  have 4: "create db notify s t a parent_id newId now =
             (Inl (NotFoundException ''Parent comment not found''), s)"
    if "parent_id = Some pid \<and> pid \<noteq> []" and "uuid_in db pid = Some u" and "findById s u = None"
    for pid u
    using that create_parent_missing [of pid db u s notify t a newId now] by simp
  have 5: "create db notify s t a parent_id newId now =
             (Inl (BadRequestException ''Cannot reply to deleted comment''), s)"
    if "parent_id = Some pid \<and> pid \<noteq> []" and "uuid_in db pid = Some u"
      and "findById s u = Some parent" and "isDeleted parent" for pid u parent
    using that create_parent_deleted [of pid db u s parent notify t a newId now] by simp
  have 6: "\<exists>c. findById (snd (create db notify s t a parent_id newId now)) newId = Some c
              \<and> (\<forall>r. fst (create db notify s t a parent_id newId now) = Inr r \<longrightarrow> r = Some c)
              \<and> depth c = depth parent + 1
              \<and> path c = Some (case path parent of
                                 None \<Rightarrow> comment_id parent
                               | Some p \<Rightarrow> if p = [] then comment_id parent
                                           else p @ ''.'' @ comment_id parent)"
    if p: "parent_id = Some pid \<and> pid \<noteq> []" and u: "uuid_in db pid = Some u"
      and f: "findById s u = Some parent"
      and nd: "\<not> isDeleted parent \<and> length (child_path parent) \<le> 500" for pid u parent
  proof -
    let ?n = "new_comment t ua (Some u) (depth parent + 1) (child_path parent) newId now"
    have ne: "pid \<noteq> []" and nd1: "\<not> isDeleted parent" and fit: "length (child_path parent) \<le> 500"
      using p nd by simp_all
    have a: "findById (snd (create db notify s t a parent_id newId now)) newId = Some ?n"
      using create_reply(2) [where db = db and pid = pid and u = u, OF ne u f nd1 assms(1) fit assms(2),
              of notify t now] p by simp
    have b: "\<forall>r. fst (create db notify s t a parent_id newId now) = Inr r \<longrightarrow> r = Some ?n"
      using create_reply(3) [where db = db and pid = pid and u = u, OF ne u f nd1 assms(1) fit assms(2),
              of notify t now] p
      by (simp split: if_splits)
    have c: "depth ?n = depth parent + 1" by (simp add: new_comment_def)
    have d: "path ?n = Some (case path parent of
                              None \<Rightarrow> comment_id parent
                            | Some p \<Rightarrow> if p = [] then comment_id parent
                                        else p @ ''.'' @ comment_id parent)"
      by (simp add: new_comment_def child_path_def split: option.splits)
    show ?thesis using a b c d by blast
  qed
  have 7: "fst (create db notify s t a parent_id newId now) = Inl QueryFailedError
           \<and> findById (snd (create db notify s t a parent_id newId now)) newId = None"
    if p: "parent_id = Some pid \<and> pid \<noteq> []" and u: "uuid_in db pid = Some u"
      and f: "findById s u = Some parent"
      and nd: "\<not> isDeleted parent \<and> 500 < length (child_path parent)" for pid u parent
  proof -
    have ne: "pid \<noteq> []" and nd1: "\<not> isDeleted parent" and long: "500 < length (child_path parent)"
      using p nd by simp_all
    show ?thesis
      using create_reply_refused(1,2) [where db = db and pid = pid and u = u, OF ne u f nd1 assms(1) long,
              of notify t a now] p by simp
  qed
  show ?thesis
    apply (intro conjI allI impI)
    subgoal using 1 by simp
    subgoal using 2 by simp
    subgoal premises p for pid using 3 [OF p] .
    subgoal premises p for pid u using 4 [OF p] .
    subgoal premises p for pid u parent using 5 [OF p] .
    subgoal premises p for pid u parent using 6 [OF p] .
    subgoal premises p for pid u parent using 7 [OF p] by simp
    subgoal premises p for pid u parent using 7 [OF p] by simp
    done
qed


theorem create_assigns_ancestry_witness:
  "findById [root_0] (comment_uuid 1) = None
   \<and> read_uuid (user_in db_lower) (user_uuid 2) = Some (user_uuid 2)
   \<and> comment_uuid 0 \<noteq> [] \<and> uuid_in db_lower (comment_uuid 0) = Some (comment_uuid 0)
   \<and> findById [root_0] (comment_uuid 0) = Some root_0 \<and> \<not> isDeleted root_0
   \<and> length (child_path root_0) \<le> 500
   \<and> map_option depth
        (findById (snd (create db_lower notify_ok [root_0] ''reply'' (user_uuid 2)
                          (Some (comment_uuid 0)) (comment_uuid 1) 10)) (comment_uuid 1))
        = Some 1
   \<and> map_option path
        (findById (snd (create db_lower notify_ok [root_0] ''reply'' (user_uuid 2)
                          (Some (comment_uuid 0)) (comment_uuid 1) 10)) (comment_uuid 1))
        = Some (Some (comment_uuid 0))
   \<and> comment_uuid 9 \<noteq> [] \<and> uuid_in db_lower (comment_uuid 9) = Some (comment_uuid 9)
   \<and> findById [root_0] (comment_uuid 9) = None
   \<and> create db_lower notify_ok [root_0] ''reply'' (user_uuid 2) (Some (comment_uuid 9))
         (comment_uuid 1) 10 =
        (Inl (NotFoundException ''Parent comment not found''), [root_0])"
proof -
  have fr: "findById [root_0] (comment_uuid 1) = None"
    and f9: "findById [root_0] (comment_uuid 9) = None"
    and f: "findById [root_0] (comment_uuid 0) = Some root_0"
    by code_simp+
  have au: "read_uuid (user_in db_lower) (user_uuid 2) = Some (user_uuid 2)" by code_simp
  have u0: "uuid_in db_lower (comment_uuid 0) = Some (comment_uuid 0)"
    and u9: "uuid_in db_lower (comment_uuid 9) = Some (comment_uuid 9)"
    by code_simp+
  have nd: "\<not> isDeleted root_0" by (simp add: root_0_def new_comment_def)
  have cp: "child_path root_0 = comment_uuid 0"
    by (simp add: child_path_def root_0_def new_comment_def)
  have fit: "length (child_path root_0) \<le> 500"
    by (simp add: cp comment_uuid_def)
  have ne0: "comment_uuid 0 \<noteq> []" and ne9: "comment_uuid 9 \<noteq> []"
    by (simp_all add: comment_uuid_def)
  note T = create_assigns_ancestry
             [OF fr au, of "Some (comment_uuid 0)" notify_ok "''reply''" 10]
  from T ne0 u0 f nd fit obtain c where
    c: "findById (snd (create db_lower notify_ok [root_0] ''reply'' (user_uuid 2)
                        (Some (comment_uuid 0)) (comment_uuid 1) 10)) (comment_uuid 1) = Some c"
       "depth c = depth root_0 + 1"
       "path c = Some (case path root_0 of None \<Rightarrow> comment_id root_0
                       | Some p \<Rightarrow> if p = [] then comment_id root_0
                                   else p @ ''.'' @ comment_id root_0)"
    by auto
  have d: "depth c = 1" and p: "path c = Some (comment_uuid 0)"
    using c(2,3) by (simp_all add: root_0_def new_comment_def)
  note Z = create_assigns_ancestry
             [OF fr au, of "Some (comment_uuid 9)" notify_ok "''reply''" 10]
  have z: "create db_lower notify_ok [root_0] ''reply'' (user_uuid 2) (Some (comment_uuid 9))
             (comment_uuid 1) 10 =
             (Inl (NotFoundException ''Parent comment not found''), [root_0])"
    using Z ne9 u9 f9 by simp
  show ?thesis using fr au ne0 u0 f nd fit c(1) d p ne9 u9 f9 z by simp
qed

subsection \<open>The reply notification\<close>

text \<open>
  Claim C2, as stated, at a reply by user 2 to the comment 0 of user 1, which exists and is
  not soft-deleted, when the notification call fails: \<open>create\<close> awaits the call outside any
  \<open>try\<close>, so creation fails with the notification's error.
\<close>

theorem notification_failure_counterexample:
  "findById [root_0] (comment_uuid 0) = Some root_0 \<and> \<not> isDeleted root_0
   \<and> authorId root_0 \<noteq> user_uuid 2
   \<and> fst (create db_lower notify_fails [root_0] ''reply'' (user_uuid 2)
             (Some (comment_uuid 0)) (comment_uuid 1) 10)
       = Inl NotificationRejected"
  by code_simp

text \<open>
  Claim C2, amended. For a reply whose parent exists, is not soft-deleted and has another
  author than the reply (with a fresh generated id, an author whom the users table holds,
  and a path that fits the path column): if
  the notification call fails, creation fails with the notification's error; if it succeeds,
  creation returns the created comment. In both cases the new comment has been stored and
  the parent's \<open>childrenCount\<close> has been written before the notification is attempted.
\<close>

theorem notification_failure_propagates:
  assumes "pid \<noteq> []" and "uuid_in db pid = Some u" and "findById s u = Some parent"
    and "\<not> isDeleted parent" and "authorId parent \<noteq> a" and "findById s newId = None"
    and "length (child_path parent) \<le> 500" and "read_uuid (user_in db) a = Some ua"
  shows "(\<not> notify (authorId parent) newId a \<longrightarrow>
            fst (create db notify s t a (Some pid) newId now) = Inl NotificationRejected)
       \<and> (notify (authorId parent) newId a \<longrightarrow>
            fst (create db notify s t a (Some pid) newId now) =
              Inr (Some (new_comment t ua (Some u) (depth parent + 1) (child_path parent) newId now)))
       \<and> findById (snd (create db notify s t a (Some pid) newId now)) newId =
            Some (new_comment t ua (Some u) (depth parent + 1) (child_path parent) newId now)
       \<and> findById (snd (create db notify s t a (Some pid) newId now)) u =
            Some (parent\<lparr>childrenCount := childrenCount parent + 1, updatedAt := now\<rparr>)"
  using create_reply(2,3) [where db = db and pid = pid and u = u,
          OF assms(1) assms(2) assms(3) assms(4) assms(6) assms(7) assms(8), of notify t now]
    create_reply_counts [where db = db and pid = pid and u = u,
          OF assms(1) assms(2) assms(3) assms(4), of notify t a newId now]
    assms(5)
  by simp

theorem notification_failure_propagates_witness:
  "comment_uuid 0 \<noteq> [] \<and> uuid_in db_lower (comment_uuid 0) = Some (comment_uuid 0)
   \<and> findById [root_0] (comment_uuid 0) = Some root_0 \<and> \<not> isDeleted root_0
   \<and> authorId root_0 \<noteq> user_uuid 2 \<and> findById [root_0] (comment_uuid 1) = None
   \<and> length (child_path root_0) \<le> 500
   \<and> read_uuid (user_in db_lower) (user_uuid 2) = Some (user_uuid 2)
   \<and> \<not> notify_fails (authorId root_0) (comment_uuid 1) (user_uuid 2)
   \<and> fst (create db_lower notify_fails [root_0] ''reply'' (user_uuid 2)
             (Some (comment_uuid 0)) (comment_uuid 1) 10) = Inl NotificationRejected
   \<and> findById (snd (create db_lower notify_fails [root_0] ''reply'' (user_uuid 2)
                       (Some (comment_uuid 0)) (comment_uuid 1) 10)) (comment_uuid 1)
        = Some (new_comment ''reply'' (user_uuid 2) (Some (comment_uuid 0)) 1 (comment_uuid 0)
                  (comment_uuid 1) 10)
   \<and> findById (snd (create db_lower notify_fails [root_0] ''reply'' (user_uuid 2)
                       (Some (comment_uuid 0)) (comment_uuid 1) 10)) (comment_uuid 0)
        = Some (root_0\<lparr>childrenCount := 1, updatedAt := 10\<rparr>)
   \<and> notify_ok (authorId root_0) (comment_uuid 1) (user_uuid 2)
   \<and> fst (create db_lower notify_ok [root_0] ''reply'' (user_uuid 2)
             (Some (comment_uuid 0)) (comment_uuid 1) 10)
        = Inr (Some (new_comment ''reply'' (user_uuid 2) (Some (comment_uuid 0)) 1 (comment_uuid 0)
                       (comment_uuid 1) 10))"
proof -
  have ne: "comment_uuid 0 \<noteq> []" by (simp add: comment_uuid_def)
  have u0: "uuid_in db_lower (comment_uuid 0) = Some (comment_uuid 0)" by code_simp
  have ua: "read_uuid (user_in db_lower) (user_uuid 2) = Some (user_uuid 2)" by code_simp
  have fr: "findById [root_0] (comment_uuid 1) = None"
    and f: "findById [root_0] (comment_uuid 0) = Some root_0"
    by code_simp+
  have nd: "\<not> isDeleted root_0" and dp: "depth root_0 + 1 = 1"
    and cc: "childrenCount root_0 + 1 = 1"
    by (simp_all add: root_0_def new_comment_def)
  have au: "authorId root_0 \<noteq> user_uuid 2" by code_simp
  have cp: "child_path root_0 = comment_uuid 0"
    by (simp add: child_path_def root_0_def new_comment_def)
  have fit: "length (child_path root_0) \<le> 500"
    by (simp add: cp comment_uuid_def)
  note F = notification_failure_propagates
             [where db = db_lower and pid = "comment_uuid 0" and u = "comment_uuid 0",
              OF ne u0 f nd au fr fit ua, of notify_fails "''reply''" 10]
  note K = notification_failure_propagates
             [where db = db_lower and pid = "comment_uuid 0" and u = "comment_uuid 0",
              OF ne u0 f nd au fr fit ua, of notify_ok "''reply''" 10]
  show ?thesis using ne u0 fr f nd au fit ua F K
    by (simp add: notify_fails_def notify_ok_def dp cp cc)
qed

section \<open>Retrieval: properties\<close>

text \<open>
  Claim C8 at the thread \<open>A\<close>, \<open>B\<close>, \<open>C\<close>: the filter of \<open>buildNestedStructure\<close> keeps every
  row whose path names the node anywhere, so the grandchild \<open>C\<close>, whose \<open>parentId\<close> is \<open>B\<close>,
  is attached under \<open>B\<close> and once more directly under \<open>A\<close>.
\<close>

theorem subtree_repeats_grandchild:
  "parentId row_B = Some ''A'' \<and> parentId row_C = Some ''B''
   \<and> findByIdWithChildren 3 thread_ABC ''A''
       = Some (Some (Node row_A [Node row_B [Node row_C []], Node row_C []]))"
  by (simp add: thread_ABC_def row_A_def row_B_def row_C_def root_A_def findByIdWithChildren_def
        subtree_rows_def descendants_pattern_def path_like_def path_includes_def
        findById_def new_comment_def Let_def eval_nat_numeral)


lemma those_map_root:
  "those (map (\<lambda>x. map_option (Node x) (k x)) xs) = Some ts \<Longrightarrow> map root ts = xs"
proof (induction xs arbitrary: ts)
  case Nil
  then show ?case by simp
next
  case (Cons x xs)
  then show ?case by (auto split: option.splits)
qed

lemma those_map_returns:
  "(\<And>x. x \<in> set xs \<Longrightarrow> f x \<noteq> None) \<Longrightarrow> those (map f xs) \<noteq> None"
  by (induction xs) (auto split: option.splits)

lemma buildNestedStructure_roots:
  "buildNestedStructure fuel cs i = Some ts \<Longrightarrow> map root ts = filter (path_includes i) cs"
proof (cases fuel)
  case 0
  assume "buildNestedStructure fuel cs i = Some ts"
  then show ?thesis using 0 by simp
next
  case (Suc n)
  assume "buildNestedStructure fuel cs i = Some ts"
  then show ?thesis using Suc those_map_root by simp
qed

lemma findMany_not_deleted:
  assumes "findMany s opts = Inr r" and "opt_includeDeleted opts \<noteq> Some True" and "x \<in> set (comments r)"
  shows "\<not> isDeleted x \<and> x \<in> set s"
proof -
  let ?rows = "rev (sort_key createdAt (filter (findMany_where opts) s))"
  have "x \<in> set ?rows"
    using assms(1,3)
    by (auto simp: findMany_def Let_def split: if_splits dest!: in_set_takeD in_set_dropD)
  then have "findMany_where opts x" and "x \<in> set s" by simp_all
  then show ?thesis using assms(2)
    by (auto simp: findMany_where_def split: option.splits bool.splits)
qed

text \<open>
  \<open>buildNestedStructure\<close> returns on a list whose paths grow, once the bound of the recursion
  exceeds the number of rows: each call is on a row with a longer path than the row of the
  call before.
\<close>

lemma buildNestedStructure_terminates:
  assumes W: "\<forall>q \<in> set cs. \<forall>r \<in> set cs. path_includes (comment_id q) r \<longrightarrow> plen q < plen r"
  shows "\<forall>r \<in> set cs. path_includes j r \<longrightarrow> L \<le> plen r \<Longrightarrow>
         card {r \<in> set cs. L \<le> plen r} < n \<Longrightarrow>
         buildNestedStructure n cs j \<noteq> None"
proof (induction n arbitrary: j L)
  case 0
  then show ?case by simp
next
  case (Suc n)
  have "\<And>child. child \<in> set (filter (path_includes j) cs) \<Longrightarrow>
          map_option (Node child) (buildNestedStructure n cs (comment_id child)) \<noteq> None"
  proof -
    fix child
    assume "child \<in> set (filter (path_includes j) cs)"
    then have m: "child \<in> set cs" and pj: "path_includes j child" by simp_all
    have lo: "L \<le> plen child" using Suc.prems(1) m pj by blast
    have below: "\<forall>r \<in> set cs. path_includes (comment_id child) r \<longrightarrow> Suc (plen child) \<le> plen r"
      using W m by (simp add: Suc_le_eq)
    have "{r \<in> set cs. Suc (plen child) \<le> plen r} \<subseteq> {r \<in> set cs. L \<le> plen r}"
      using lo by auto
    moreover have "child \<in> {r \<in> set cs. L \<le> plen r}" using lo m by simp
    moreover have "child \<notin> {r \<in> set cs. Suc (plen child) \<le> plen r}" by simp
    ultimately have "{r \<in> set cs. Suc (plen child) \<le> plen r} \<subset> {r \<in> set cs. L \<le> plen r}"
      by blast
    then have "card {r \<in> set cs. Suc (plen child) \<le> plen r} < card {r \<in> set cs. L \<le> plen r}"
      by (simp add: psubset_card_mono)
    then have "card {r \<in> set cs. Suc (plen child) \<le> plen r} < n"
      using Suc.prems(2) by simp
    then have "buildNestedStructure n cs (comment_id child) \<noteq> None"
      using Suc.IH [OF below] by simp
    then show "map_option (Node child) (buildNestedStructure n cs (comment_id child)) \<noteq> None"
      by simp
  qed
  then have "those (map (\<lambda>child. map_option (Node child)
                       (buildNestedStructure n cs (comment_id child)))
                 (filter (path_includes j) cs)) \<noteq> None"
    by (rule those_map_returns)
  then show ?case by simp
qed

lemma buildNestedStructure_total:
  assumes "path_grows cs" and "length cs < fuel"
  shows "\<exists>ts. buildNestedStructure fuel cs j = Some ts"
proof -
  have W: "\<forall>q \<in> set cs. \<forall>r \<in> set cs. path_includes (comment_id q) r \<longrightarrow> plen q < plen r"
    using assms(1) by (simp add: path_grows_def list_all_iff)
  have "card {r \<in> set cs. 0 \<le> plen r} \<le> length cs"
    by (simp add: card_length)
  then have "card {r \<in> set cs. 0 \<le> plen r} < fuel" using assms(2) by simp
  from buildNestedStructure_terminates [OF W _ this, of j]
  show ?thesis by simp
qed

lemma path_grows_subset:
  "path_grows s \<Longrightarrow> set cs \<subseteq> set s \<Longrightarrow> path_grows cs"
  by (auto simp: path_grows_def list_all_iff)

lemma subtree_rows_subset: "set (subtree_rows s c i) \<subseteq> set s"
  by (auto simp: subtree_rows_def)

lemma subtree_rows_length: "length (subtree_rows s c i) \<le> length s"
  by (simp add: subtree_rows_def)

lemma findByIdWithChildren_total:
  assumes "path_grows s" and "length s < fuel" and "findById s i = Some c"
  shows "\<exists>ts. findByIdWithChildren fuel s i = Some (Some (Node c ts))"
proof -
  have "path_grows (subtree_rows s c i)"
    using path_grows_subset [OF assms(1) subtree_rows_subset] .
  moreover have "length (subtree_rows s c i) < fuel"
    using subtree_rows_length [of s c i] assms(2) by simp
  ultimately obtain ts where
    "buildNestedStructure fuel (subtree_rows s c i) (comment_id c) = Some ts"
    using buildNestedStructure_total by blast
  then show ?thesis using assms(3) by (simp add: findByIdWithChildren_def)
qed


text \<open>
  Every table the service builds satisfies the invariant, so its paths grow: a new row's
  path is its parent's path extended by the parent's id, and no path names the new id.
\<close>

lemma split_dot_nonempty: "split_dot p \<noteq> []"
  by (induction p) (auto split: list.splits)

lemma split_dot_append: "split_dot (a @ CHR ''.'' # b) = split_dot a @ split_dot b"
proof (induction a)
  case Nil
  then show ?case by simp
next
  case (Cons c a)
  then show ?case using split_dot_nonempty [of a] by (auto split: list.splits)
qed

lemma split_dot_nodot: "CHR ''.'' \<notin> set x \<Longrightarrow> split_dot x = [x]"
  by (induction x) (auto split: list.splits)

lemma names_cpath:
  assumes "names j (Some (cpath i p))" and "CHR ''.'' \<notin> set i"
  shows "(names j p \<or> j = i) \<and> olen p < olen (Some (cpath i p))"
proof (cases "\<exists>q. p = Some q \<and> q \<noteq> []")
  case True
  then obtain q where q: "p = Some q" "q \<noteq> []" by blast
  have "cpath i p = q @ CHR ''.'' # i" using q by (simp add: cpath_def)
  then have "split_dot (cpath i p) = split_dot q @ [i]"
    using split_dot_append [of q i] split_dot_nodot [OF assms(2)] by simp
  then show ?thesis using assms(1) q by (auto simp: names_def olen_def cpath_def)
next
  case False
  then have c: "cpath i p = i" and o: "olen p = 0"
    by (auto simp: cpath_def olen_def split: option.splits)
  have "i \<noteq> []" using assms(1) c by (simp add: names_def)
  then show ?thesis
    using assms(1) c o split_dot_nodot [OF assms(2)] by (simp add: names_def olen_def)
qed

lemma keys_ok_reply:
  assumes ok: "keys_ok ks" and par: "(i, p) \<in> set ks"
    and fresh: "newId \<notin> fst ` set ks" and nodot: "CHR ''.'' \<notin> set newId"
  shows "keys_ok (ks @ [(newId, Some (cpath i p))])"
proof -
  let ?n = "(newId, Some (cpath i p))"
  have d: "distinct (map fst ks)" and nd: "\<forall>k \<in> set ks. CHR ''.'' \<notin> set (fst k)"
    and cl: "\<forall>k \<in> set ks. \<forall>j. names j (snd k) \<longrightarrow> j \<in> fst ` set ks"
    and gr: "\<forall>k \<in> set ks. \<forall>k' \<in> set ks. names (fst k) (snd k') \<longrightarrow> olen (snd k) < olen (snd k')"
    using ok by (simp_all add: keys_ok_def)
  have ndi: "CHR ''.'' \<notin> set i" using nd par by force
  have new_names: "\<And>j. names j (Some (cpath i p)) \<Longrightarrow> j \<in> fst ` set ks"
  proof -
    fix j
    assume "names j (Some (cpath i p))"
    then have "names j p \<or> j = i" using names_cpath [OF _ ndi] by blast
    then show "j \<in> fst ` set ks" using cl par by force
  qed
  have 1: "distinct (map fst (ks @ [?n]))" using d fresh by simp
  have 2: "\<forall>k \<in> set (ks @ [?n]). CHR ''.'' \<notin> set (fst k)" using nd nodot by simp
  have 3: "\<forall>k \<in> set (ks @ [?n]). \<forall>j. names j (snd k) \<longrightarrow> j \<in> fst ` set (ks @ [?n])"
    using cl new_names by auto
  have 4: "olen (snd k) < olen (snd k')"
    if k: "k \<in> set (ks @ [?n])" and k': "k' \<in> set (ks @ [?n])" and nm: "names (fst k) (snd k')"
    for k k'
  proof (cases "k' = ?n")
    case True
    then have nm': "names (fst k) (Some (cpath i p))" using nm by simp
    then have "fst k \<in> fst ` set ks" using new_names by blast
    then have kin: "k \<in> set ks" using k fresh by force
    have lt: "olen p < olen (Some (cpath i p))" using names_cpath [OF nm' ndi] by simp
    have "names (fst k) p \<or> fst k = i" using names_cpath [OF nm' ndi] by simp
    then show ?thesis
    proof
      assume "names (fst k) p"
      then have "olen (snd k) < olen p" using gr kin par by force
      then show ?thesis using lt True by simp
    next
      assume "fst k = i"
      then have "k = (i, p)" using d kin par by (metis eq_key_imp_eq_value prod.collapse)
      then show ?thesis using lt True by simp
    qed
  next
    case False
    then have k'in: "k' \<in> set ks" using k' by simp
    then have "fst k \<in> fst ` set ks" using cl nm by blast
    then have "k \<in> set ks" using k fresh by force
    then show ?thesis using gr k'in nm by blast
  qed
  show ?thesis unfolding keys_ok_def using 1 2 3 4 by blast
qed

lemma keys_ok_root:
  assumes ok: "keys_ok ks" and fresh: "newId \<notin> fst ` set ks" and nodot: "CHR ''.'' \<notin> set newId"
  shows "keys_ok (ks @ [(newId, Some [])])"
proof -
  let ?n = "(newId, Some [])"
  have d: "distinct (map fst ks)" and nd: "\<forall>k \<in> set ks. CHR ''.'' \<notin> set (fst k)"
    and cl: "\<forall>k \<in> set ks. \<forall>j. names j (snd k) \<longrightarrow> j \<in> fst ` set ks"
    and gr: "\<forall>k \<in> set ks. \<forall>k' \<in> set ks. names (fst k) (snd k') \<longrightarrow> olen (snd k) < olen (snd k')"
    using ok by (simp_all add: keys_ok_def)
  have nn: "\<And>j. \<not> names j (Some [])" by (simp add: names_def)
  have 1: "distinct (map fst (ks @ [?n]))" using d fresh by simp
  have 2: "\<forall>k \<in> set (ks @ [?n]). CHR ''.'' \<notin> set (fst k)" using nd nodot by simp
  have 3: "\<forall>k \<in> set (ks @ [?n]). \<forall>j. names j (snd k) \<longrightarrow> j \<in> fst ` set (ks @ [?n])"
    using cl nn by auto
  have 4: "olen (snd k) < olen (snd k')"
    if k: "k \<in> set (ks @ [?n])" and k': "k' \<in> set (ks @ [?n])" and nm: "names (fst k) (snd k')"
    for k k'
  proof -
    have k'in: "k' \<in> set ks" using k' nm nn by auto
    then have "fst k \<in> fst ` set ks" using cl nm by blast
    then have "k \<in> set ks" using k fresh by force
    then show ?thesis using gr k'in nm by blast
  qed
  show ?thesis unfolding keys_ok_def using 1 2 3 4 by blast
qed


lemma key_update_childrenCount: "map key (update_childrenCount s u n t) = map key s"
  by (simp add: update_childrenCount_def key_def)

lemma child_path_cpath: "child_path parent = cpath (comment_id parent) (path parent)"
  by (simp add: child_path_def cpath_def)

lemma findById_None_fresh: "findById s newId = None \<Longrightarrow> newId \<notin> fst ` set (map key s)"
  by (auto simp: findById_def find_None_iff key_def)

lemma table_ok_update_childrenCount:
  "table_ok s \<Longrightarrow> table_ok (update_childrenCount s u n t)"
  by (simp add: table_ok_def key_update_childrenCount)

lemma table_ok_root:
  assumes "table_ok s" and "findById s newId = None" and "CHR ''.'' \<notin> set newId"
  shows "table_ok (s @ [new_comment t a pc 0 [] newId now])"
proof -
  have "map key (s @ [new_comment t a pc 0 [] newId now]) = map key s @ [(newId, Some [])]"
    by (simp add: key_def new_comment_def)
  then show ?thesis
    using keys_ok_root [OF _ findById_None_fresh [OF assms(2)] assms(3)] assms(1)
    by (simp add: table_ok_def)
qed

lemma table_ok_reply:
  assumes "table_ok s" and "findById s u = Some parent" and "findById s newId = None"
    and "CHR ''.'' \<notin> set newId"
  shows "table_ok (update_childrenCount s u n now
                     @ [new_comment t a pc d (child_path parent) newId now'])"
proof -
  have "key parent \<in> set (map key s)" using findById_mem [OF assms(2)] by simp
  then have par: "(comment_id parent, path parent) \<in> set (map key s)" by (simp add: key_def)
  have "map key (update_childrenCount s u n now
                   @ [new_comment t a pc d (child_path parent) newId now'])
          = map key s @ [(newId, Some (cpath (comment_id parent) (path parent)))]"
    by (simp add: key_update_childrenCount child_path_cpath) (simp add: key_def new_comment_def)
  then show ?thesis
    using keys_ok_reply [OF _ par findById_None_fresh [OF assms(3)] assms(4)] assms(1)
    by (simp add: table_ok_def)
qed

lemma insert_comment_form:
  "insert_comment db t a parent_id d p newId now = Inr n \<Longrightarrow>
   \<exists>ua pc. n = new_comment t ua pc d p newId now"
  by (auto simp: insert_comment_def split: option.splits if_splits)

lemma save_and_notify_store:
  "snd (save_and_notify db notify s t a parent_id parent d p newId now) = s
   \<or> (\<exists>ua pc. snd (save_and_notify db notify s t a parent_id parent d p newId now)
               = s @ [new_comment t ua pc d p newId now])"
proof (cases "insert_comment db t a parent_id d p newId now")
  case (Inl e)
  then show ?thesis by (simp add: save_and_notify_def)
next
  case (Inr n)
  then have "snd (save_and_notify db notify s t a parent_id parent d p newId now) = s @ [n]"
    by (simp add: save_and_notify_def Let_def split: option.splits)
  then show ?thesis using insert_comment_form [OF Inr] by auto
qed

lemma create_store_cases:
  "snd (create db notify s t a parent_id newId now) = s
   \<or> (\<exists>ua pc. snd (create db notify s t a parent_id newId now)
               = s @ [new_comment t ua pc 0 [] newId now])
   \<or> (\<exists>u parent.
         findById s u = Some parent
         \<and> (snd (create db notify s t a parent_id newId now)
              = update_childrenCount s u (childrenCount parent + 1) now
            \<or> (\<exists>ua pc. snd (create db notify s t a parent_id newId now)
                        = update_childrenCount s u (childrenCount parent + 1) now
                            @ [new_comment t ua pc (depth parent + 1) (child_path parent)
                                 newId now])))"
proof (cases "\<exists>pid u parent. parent_id = Some pid \<and> pid \<noteq> []
                \<and> read_uuid (uuid_in db) pid = Some u \<and> findById s u = Some parent
                \<and> \<not> isDeleted parent")
  case True
  then obtain pid u parent where h: "parent_id = Some pid" "pid \<noteq> []"
    "read_uuid (uuid_in db) pid = Some u" "findById s u = Some parent" "\<not> isDeleted parent"
    by blast
  let ?s1 = "update_childrenCount s u (childrenCount parent + 1) now"
  have c: "create db notify s t a parent_id newId now =
             save_and_notify db notify ?s1 t a parent_id (Some parent) (depth parent + 1)
               (child_path parent) newId now"
    using h by (simp add: create_def Let_def)
  from save_and_notify_store [of db notify ?s1 t a parent_id "Some parent" "depth parent + 1"
         "child_path parent" newId now]
  consider (refused) "snd (create db notify s t a parent_id newId now) = ?s1"
    | (stored) ua pc where "snd (create db notify s t a parent_id newId now)
        = ?s1 @ [new_comment t ua pc (depth parent + 1) (child_path parent) newId now]"
    using c by auto
  then show ?thesis
  proof cases
    case refused
    then have "findById s u = Some parent
               \<and> snd (create db notify s t a parent_id newId now) = ?s1"
      using h(4) by simp
    then show ?thesis by blast
  next
    case stored
    then have "findById s u = Some parent
               \<and> (\<exists>ua pc. snd (create db notify s t a parent_id newId now)
                      = ?s1 @ [new_comment t ua pc (depth parent + 1) (child_path parent)
                                 newId now])"
      using h(4) by blast
    then show ?thesis by blast
  qed
next
  case False
  have "snd (create db notify s t a parent_id newId now) = s
        \<or> create db notify s t a parent_id newId now =
            save_and_notify db notify s t a parent_id None 0 [] newId now"
    using False by (auto simp: create_def Let_def split: option.splits)
  then consider (same) "snd (create db notify s t a parent_id newId now) = s"
    | (root) ua pc where "snd (create db notify s t a parent_id newId now)
        = s @ [new_comment t ua pc 0 [] newId now]"
    using save_and_notify_store [of db notify s t a parent_id None 0 "[]" newId now]
    by auto
  then show ?thesis
  proof cases
    case same
    then show ?thesis by blast
  next
    case root
    then show ?thesis by blast
  qed
qed

lemma table_ok_create:
  assumes "table_ok s" and "findById s newId = None" and "CHR ''.'' \<notin> set newId"
  shows "table_ok (snd (create db notify s t a parent_id newId now))"
  using create_store_cases [of db notify s t a parent_id newId now]
    table_ok_root [OF assms] table_ok_reply [OF assms(1) _ assms(2) assms(3)]
    table_ok_update_childrenCount [OF assms(1)] assms(1)
  by (elim disjE exE conjE) simp_all

lemma key_save:
  assumes "table_ok s" and "findById s i = Some c" and "key c' = key c"
  shows "map key (snd (save s c' now)) = map key s"
proof -
  have d: "distinct (map comment_id s)"
    using assms(1) by (simp add: table_ok_def keys_ok_def key_def comp_def)
  have cin: "c \<in> set s" using findById_mem [OF assms(2)] .
  have "\<And>r. r \<in> set s \<Longrightarrow>
          key (if comment_id r = comment_id c' then c'\<lparr>updatedAt := now\<rparr> else r) = key r"
  proof -
    fix r
    assume rin: "r \<in> set s"
    show "key (if comment_id r = comment_id c' then c'\<lparr>updatedAt := now\<rparr> else r) = key r"
    proof (cases "comment_id r = comment_id c'")
      case True
      then have "comment_id r = comment_id c" using assms(3) by (simp add: key_def)
      then have "r = c" using d rin cin by (meson distinct_map inj_onD)
      then show ?thesis using True assms(3) by (simp add: key_def)
    next
      case False
      then show ?thesis by simp
    qed
  qed
  then show ?thesis by (simp add: save_def Let_def)
qed

lemma table_ok_mutations:
  assumes "table_ok s"
  shows "table_ok (snd (update s i t u now))"
    and "table_ok (snd (delete s i u now))"
    and "table_ok (snd (restore s i u now))"
proof -
  show "table_ok (snd (update s i t u now))"
  proof (cases "findById s i")
    case None
    then show ?thesis using assms by (simp add: update_def)
  next
    case (Some c)
    let ?c2 = "(if \<not> isEdited c then c\<lparr>originalContent := Some (content c)\<rparr> else c)
                 \<lparr>content := t, isEdited := True, editedAt := Some now\<rparr>"
    have "key ?c2 = key c" by (simp add: key_def)
    from key_save [OF assms Some this, of now] show ?thesis
      using Some assms by (simp add: update_def Let_def split_beta table_ok_def)
  qed
  show "table_ok (snd (delete s i u now))"
  proof (cases "findById s i")
    case None
    then show ?thesis using assms by (simp add: delete_def)
  next
    case (Some c)
    have "key (c\<lparr>isDeleted := True, deletedAt := Some now\<rparr>) = key c" by (simp add: key_def)
    from key_save [OF assms Some this, of now] show ?thesis
      using Some assms by (simp add: delete_def Let_def split_beta table_ok_def)
  qed
  show "table_ok (snd (restore s i u now))"
  proof (cases "findById s i")
    case None
    then show ?thesis using assms by (simp add: restore_def)
  next
    case (Some c)
    have "key (c\<lparr>isDeleted := False, deletedAt := None, restoredAt := Some now\<rparr>) = key c"
      by (simp add: key_def)
    from key_save [OF assms Some this, of now] show ?thesis
      using Some assms by (simp add: restore_def Let_def split_beta table_ok_def)
  qed
qed

lemma reachable_table_ok: "reachable s \<Longrightarrow> table_ok s"
proof (induction rule: reachable.induct)
  case by_nothing
  then show ?case by (simp add: table_ok_def keys_ok_def)
next
  case (by_create s newId db notify newContent author parent_id now)
  then show ?case using table_ok_create by simp
next
  case (by_update s i newContent userId now)
  then show ?case using table_ok_mutations(1) by simp
next
  case (by_delete s i userId now)
  then show ?case using table_ok_mutations(2) by simp
next
  case (by_restore s i userId now)
  then show ?case using table_ok_mutations(3) by simp
qed

lemma table_ok_path_grows:
  assumes "table_ok s"
  shows "path_grows s"
proof -
  have gr: "\<forall>k \<in> set (map key s). \<forall>k' \<in> set (map key s).
              names (fst k) (snd k') \<longrightarrow> olen (snd k) < olen (snd k')"
    using assms by (simp add: table_ok_def keys_ok_def)
  have "plen q < plen r"
    if "q \<in> set s" and "r \<in> set s" and "path_includes (comment_id q) r" for q r
  proof -
    have "key q \<in> set (map key s)" and "key r \<in> set (map key s)" using that by simp_all
    moreover have "names (fst (key q)) (snd (key r))"
      using that(3) by (simp add: key_def names_def path_includes_def)
    ultimately have "olen (snd (key q)) < olen (snd (key r))" using gr by blast
    then show ?thesis by (simp add: key_def olen_def plen_def)
  qed
  then show ?thesis by (simp add: path_grows_def list_all_iff)
qed

lemma reachable_path_grows: "reachable s \<Longrightarrow> path_grows s"
  using reachable_table_ok table_ok_path_grows by blast

text \<open>
  Claim C10. Whatever its \<open>isDeleted\<close> flag, a stored comment that matches the path query of
  \<open>findByIdWithChildren\<close> is among the rows the query returns, and, when its path names the
  requested comment, among the children of the tree returned; on a table that the service
  has built, the tree is returned once the bound of the recursion exceeds the number of
  rows. A stored comment that is the thread's root or matches the thread query is in the
  list \<open>getThreadByComment\<close> returns. \<open>findMany\<close> without \<open>includeDeleted\<close> returns no
  soft-deleted comment.
\<close>

theorem retrieval_keeps_soft_deleted:
  assumes "x \<in> set s" and "findById s i = Some c"
  shows "(path_like (descendants_pattern c) x \<and> comment_id x \<noteq> i \<longrightarrow>
            x \<in> set (subtree_rows s c i))
       \<and> (\<forall>t. findByIdWithChildren fuel s i = Some (Some t)
               \<and> path_like (descendants_pattern c) x \<and> comment_id x \<noteq> i
               \<and> path_includes (comment_id c) x \<longrightarrow>
             root t = c \<and> x \<in> root ` set (children t))
       \<and> (reachable s \<and> length s < fuel
            \<and> path_like (descendants_pattern c) x \<and> comment_id x \<noteq> i
            \<and> path_includes (comment_id c) x \<longrightarrow>
            (\<exists>t. findByIdWithChildren fuel s i = Some (Some t)
                 \<and> root t = c \<and> x \<in> root ` set (children t)))
       \<and> (comment_id x = thread_root c i \<or> path_like (thread_root c i @ ''%'') x \<longrightarrow>
            (\<exists>th. getThreadByComment s i = Inr th \<and> x \<in> set th))
       \<and> (isDeleted x \<and> opt_includeDeleted opts \<noteq> Some True \<longrightarrow>
            (\<forall>r. findMany s opts = Inr r \<longrightarrow> x \<notin> set (comments r)))"
proof -
  have 1: "path_like (descendants_pattern c) x \<and> comment_id x \<noteq> i \<longrightarrow>
            x \<in> set (subtree_rows s c i)"
    using assms(1) by (simp add: subtree_rows_def)
  have 2: "root t = c \<and> x \<in> root ` set (children t)"
    if a: "findByIdWithChildren fuel s i = Some (Some t)
             \<and> path_like (descendants_pattern c) x \<and> comment_id x \<noteq> i
             \<and> path_includes (comment_id c) x" for t
  proof -
    obtain ts where ts: "buildNestedStructure fuel (subtree_rows s c i) (comment_id c) = Some ts"
      and t: "t = Node c ts"
      using a assms(2) by (auto simp: findByIdWithChildren_def)
    have "x \<in> set (filter (path_includes (comment_id c)) (subtree_rows s c i))"
      using a assms(1) by (simp add: subtree_rows_def)
    then have "x \<in> set (map root ts)"
      using buildNestedStructure_roots [OF ts] by simp
    then show ?thesis using t by simp
  qed
  have 3: "\<exists>t. findByIdWithChildren fuel s i = Some (Some t)
              \<and> root t = c \<and> x \<in> root ` set (children t)"
    if b: "reachable s \<and> length s < fuel
             \<and> path_like (descendants_pattern c) x \<and> comment_id x \<noteq> i
             \<and> path_includes (comment_id c) x"
  proof -
    have "path_grows s" using b reachable_path_grows by blast
    then obtain ts where "findByIdWithChildren fuel s i = Some (Some (Node c ts))"
      using findByIdWithChildren_total [OF _ _ assms(2), of fuel] b by blast
    then show ?thesis using 2 [of "Node c ts"] b by blast
  qed
  have 4: "comment_id x = thread_root c i \<or> path_like (thread_root c i @ ''%'') x \<longrightarrow>
            (\<exists>th. getThreadByComment s i = Inr th \<and> x \<in> set th)"
    using assms by (auto simp: getThreadByComment_def Let_def)
  have 5: "isDeleted x \<and> opt_includeDeleted opts \<noteq> Some True \<longrightarrow>
            (\<forall>r. findMany s opts = Inr r \<longrightarrow> x \<notin> set (comments r))"
    using findMany_not_deleted [of s opts _ x] by blast
  show ?thesis using 1 2 3 4 5 by blast
qed

text \<open>
  The table of the example is one the service builds: a root comment is created, a reply
  to it is created, and the reply's author soft-deletes the reply.
\<close>

lemma thread_0_with_deleted_reachable: "reachable thread_0_with_deleted"
proof -
  have e1: "snd (create db_lower notify_ok [] ''first'' (user_uuid 1) None (comment_uuid 0) 0)
              = [root_0]"
    by code_simp
  have e2: "snd (delete (snd (create db_lower notify_ok [root_0] ''second'' (user_uuid 2)
                               (Some (comment_uuid 0)) (comment_uuid 1) 10))
                   (comment_uuid 1) (user_uuid 2) 20) = thread_0_with_deleted"
    by code_simp
  have f0: "findById [] (comment_uuid 0) = None" by (simp add: findById_def)
  have f1: "findById [root_0] (comment_uuid 1) = None" by code_simp
  have n0: "CHR ''.'' \<notin> set (comment_uuid 0)" and n1: "CHR ''.'' \<notin> set (comment_uuid 1)"
    by code_simp+
  have r1: "reachable [root_0]"
    using reachable.by_create [OF reachable.by_nothing f0 n0,
            where db = db_lower and notify = notify_ok and newContent = "''first''"
              and author = "user_uuid 1" and parent_id = None and now = 0] e1
    by simp
  have r2: "reachable (snd (create db_lower notify_ok [root_0] ''second'' (user_uuid 2)
                              (Some (comment_uuid 0)) (comment_uuid 1) 10))"
    using reachable.by_create [OF r1 f1 n1] .
  show ?thesis
    using reachable.by_delete [OF r2, of "comment_uuid 1" "user_uuid 2" 20] e2 by simp
qed

theorem retrieval_keeps_soft_deleted_witness:
  "deleted_reply_1 \<in> set thread_0_with_deleted \<and> isDeleted deleted_reply_1
   \<and> findById thread_0_with_deleted (comment_uuid 0)
        = Some (root_0\<lparr>childrenCount := 1, updatedAt := 10\<rparr>)
   \<and> reachable thread_0_with_deleted \<and> length thread_0_with_deleted < 3
   \<and> deleted_reply_1
        \<in> set (subtree_rows thread_0_with_deleted (root_0\<lparr>childrenCount := 1, updatedAt := 10\<rparr>)
                 (comment_uuid 0))
   \<and> findByIdWithChildren 3 thread_0_with_deleted (comment_uuid 0)
        = Some (Some (Node (root_0\<lparr>childrenCount := 1, updatedAt := 10\<rparr>)
                        [Node deleted_reply_1 []]))
   \<and> getThreadByComment thread_0_with_deleted (comment_uuid 0)
        = Inr [root_0\<lparr>childrenCount := 1, updatedAt := 10\<rparr>, deleted_reply_1]
   \<and> deleted_reply_1
        \<in> root ` set (children (Node (root_0\<lparr>childrenCount := 1, updatedAt := 10\<rparr>)
                                   [Node deleted_reply_1 []]))
   \<and> deleted_reply_1 \<in> set [root_0\<lparr>childrenCount := 1, updatedAt := 10\<rparr>, deleted_reply_1]
   \<and> findMany thread_0_with_deleted default_options
        = Inr \<lparr>comments = [root_0\<lparr>childrenCount := 1, updatedAt := 10\<rparr>], total = 1,
                page = 1, limit = 10\<rparr>
   \<and> deleted_reply_1
        \<notin> set (comments \<lparr>comments = [root_0\<lparr>childrenCount := 1, updatedAt := 10\<rparr>],
                            total = 1, page = 1, limit = 10\<rparr>)"
proof -
  let ?r = "root_0\<lparr>childrenCount := 1, updatedAt := 10\<rparr>"
  have m: "deleted_reply_1 \<in> set thread_0_with_deleted" by (simp add: thread_0_with_deleted_def)
  have d: "isDeleted deleted_reply_1" by (simp add: deleted_reply_1_def)
  have f: "findById thread_0_with_deleted (comment_uuid 0) = Some ?r" by code_simp
  have re: "reachable thread_0_with_deleted" by (rule thread_0_with_deleted_reachable)
  have len: "length thread_0_with_deleted < 3" by (simp add: thread_0_with_deleted_def)
  have pl: "path_like (descendants_pattern ?r) deleted_reply_1" by code_simp
  have ne: "comment_id deleted_reply_1 \<noteq> comment_uuid 0" by code_simp
  have pi: "path_includes (comment_id ?r) deleted_reply_1" by code_simp
  have tr: "path_like (thread_root ?r (comment_uuid 0) @ ''%'') deleted_reply_1" by code_simp
  have o: "opt_includeDeleted default_options \<noteq> Some True"
    by (simp add: default_options_def)
  have fm: "findMany thread_0_with_deleted default_options
        = Inr \<lparr>comments = [?r], total = 1, page = 1, limit = 10\<rparr>"
    by code_simp
  note T = retrieval_keeps_soft_deleted [OF m f, of 3 default_options]
  have 1: "deleted_reply_1 \<in> set (subtree_rows thread_0_with_deleted ?r (comment_uuid 0))"
    using T pl ne by blast
  obtain t where t: "findByIdWithChildren 3 thread_0_with_deleted (comment_uuid 0) = Some (Some t)"
    and rt: "root t = ?r" and ch: "deleted_reply_1 \<in> root ` set (children t)"
    using T re len pl ne pi by blast
  have t3: "findByIdWithChildren 3 thread_0_with_deleted (comment_uuid 0)
             = Some (Some (Node ?r [Node deleted_reply_1 []]))"
    by code_simp
  obtain th where th: "getThreadByComment thread_0_with_deleted (comment_uuid 0) = Inr th"
    and xin: "deleted_reply_1 \<in> set th"
    using T tr by blast
  have g: "getThreadByComment thread_0_with_deleted (comment_uuid 0) = Inr [?r, deleted_reply_1]"
    by code_simp
  have 2: "deleted_reply_1 \<in> root ` set (children (Node ?r [Node deleted_reply_1 []]))"
    using t t3 ch by simp
  have 3: "deleted_reply_1 \<in> set [?r, deleted_reply_1]"
    using th g xin by simp
  have 4: "deleted_reply_1 \<notin> set (comments \<lparr>comments = [?r], total = 1, page = 1, limit = 10\<rparr>)"
    using T d o fm by blast
  show ?thesis using m d f re len 1 t3 2 g 3 fm 4 by blast
qed

section \<open>Counting children\<close>

text \<open>One call run alone, step after step, is \<open>create\<close>.\<close>

lemma create_step_sequential:
  "run_schedule db notify [0, 0, 0, 0, 0] [(k, create_start k)] s =
     ([(k, Settled (fst (create db notify s (call_content k) (call_author k) (call_parent k)
                          (call_newId k) (call_now k))))],
      snd (create db notify s (call_content k) (call_author k) (call_parent k) (call_newId k)
             (call_now k)))"
  by (auto simp: create_start_def create_def save_and_notify_def Let_def
           split: option.splits sum.splits)

text \<open>
  Claim C1, as stated, at N = 2: two replies to the comment 0, whose \<open>childrenCount\<close> is 0,
  are created by two calls that alternate at every \<open>await\<close>. Both calls fetch the parent
  before either writes the counter. Both return their comment, the table holds two
  children of comment 0, and the \<open>childrenCount\<close> of comment 0 is 1.
\<close>

theorem concurrent_replies_lose_an_update:
  "map_option childrenCount (findById [root_0] (comment_uuid 0)) = Some 0
   \<and> map snd (fst (run_schedule db_lower notify_ok [0, 1, 0, 1, 0, 1, 0, 1, 0, 1]
                    (start_calls [reply_1, reply_2]) [root_0]))
       = [Settled (Inr (Some (new_comment ''second'' (user_uuid 2) (Some (comment_uuid 0)) 1
                                (comment_uuid 0) (comment_uuid 1) 10))),
          Settled (Inr (Some (new_comment ''third'' (user_uuid 3) (Some (comment_uuid 0)) 1
                                (comment_uuid 0) (comment_uuid 2) 11)))]
   \<and> map parentId (snd (run_schedule db_lower notify_ok [0, 1, 0, 1, 0, 1, 0, 1, 0, 1]
                    (start_calls [reply_1, reply_2]) [root_0]))
       = [None, Some (comment_uuid 0), Some (comment_uuid 0)]
   \<and> map_option childrenCount
        (findById (snd (run_schedule db_lower notify_ok [0, 1, 0, 1, 0, 1, 0, 1, 0, 1]
                    (start_calls [reply_1, reply_2]) [root_0])) (comment_uuid 0)) = Some 1"
  by code_simp

lemma create_in_turn_counts:
  assumes "pid \<noteq> []" and "uuid_in db pid = Some u"
  shows "findById s u = Some p \<Longrightarrow> \<not> isDeleted p \<Longrightarrow>
         \<forall>k \<in> set ks. call_parent k = Some pid \<and> findById s (call_newId k) = None \<Longrightarrow>
         distinct (map call_newId ks) \<Longrightarrow>
         \<exists>p'. findById (create_in_turn db notify s ks) u = Some p'
              \<and> childrenCount p' = childrenCount p + int (length ks)"
proof (induction ks arbitrary: s p)
  case Nil
  then show ?case by simp
next
  case (Cons k ks)
  let ?s' = "snd (create db notify s (call_content k) (call_author k) (call_parent k)
                    (call_newId k) (call_now k))"
  let ?p' = "p\<lparr>childrenCount := childrenCount p + 1, updatedAt := call_now k\<rparr>"
  have par: "call_parent k = Some pid" and fr: "findById s (call_newId k) = None"
    using Cons.prems(3) by simp_all
  have f': "findById ?s' u = Some ?p'"
    using create_reply_counts [where db = db and pid = pid and u = u,
            OF assms Cons.prems(1) Cons.prems(2)] par by simp
  have nd': "\<not> isDeleted ?p'" using Cons.prems(2) by simp
  have fresh': "\<forall>k' \<in> set ks. call_parent k' = Some pid \<and> findById ?s' (call_newId k') = None"
  proof
    fix k'
    assume m: "k' \<in> set ks"
    have ne: "call_newId k' \<noteq> call_newId k"
      using m Cons.prems(4) by (auto simp: image_iff)
    have "findById s (call_newId k') = None" and "call_parent k' = Some pid"
      using Cons.prems(3) m by simp_all
    then show "call_parent k' = Some pid \<and> findById ?s' (call_newId k') = None"
      using create_reply_keeps_fresh [where db = db and pid = pid and u = u,
              OF assms Cons.prems(1) Cons.prems(2) _ ne] par by simp
  qed
  have d': "distinct (map call_newId ks)" using Cons.prems(4) by simp
  from Cons.IH [OF f' nd' fresh' d']
  show ?case by auto
qed

lemma update_step_writes_snapshot:
  "findById s u = Some cur \<Longrightarrow>
   findById (snd (create_step db notify k (AtUpdateCount u parent) s)) u =
     Some (cur\<lparr>childrenCount := childrenCount parent + 1, updatedAt := call_now k\<rparr>)"
  using findById_update_childrenCount_self [of s u cur] by simp

text \<open>
  Claim C1, amended. N creations of direct children under a parent that exists and is not
  soft-deleted, run one after the other with fresh generated ids, leave the parent's
  \<open>childrenCount\<close> increased by N. The increment is a write of the counter value of the
  parent object fetched earlier, plus one: whatever the row holds when the write is made,
  it holds the fetched value plus one afterwards.
\<close>

theorem replies_in_turn_are_counted:
  assumes "pid \<noteq> []" and "uuid_in db pid = Some u" and "findById s u = Some p"
    and "\<not> isDeleted p"
    and "\<forall>k \<in> set ks. call_parent k = Some pid \<and> findById s (call_newId k) = None"
    and "distinct (map call_newId ks)"
  shows "(\<exists>p'. findById (create_in_turn db notify s ks) u = Some p'
              \<and> childrenCount p' = childrenCount p + int (length ks))
       \<and> (\<forall>k snapshot.
            findById (snd (create_step db notify k (AtUpdateCount u snapshot) s)) u =
              Some (p\<lparr>childrenCount := childrenCount snapshot + 1, updatedAt := call_now k\<rparr>))"
  using create_in_turn_counts [where db = db and pid = pid and u = u,
          OF assms(1) assms(2) assms(3) assms(4) assms(5) assms(6), of notify]
    update_step_writes_snapshot [OF assms(3)]
  by blast

theorem replies_in_turn_are_counted_witness:
  "comment_uuid 0 \<noteq> [] \<and> uuid_in db_lower (comment_uuid 0) = Some (comment_uuid 0)
   \<and> findById [root_0] (comment_uuid 0) = Some root_0 \<and> \<not> isDeleted root_0
   \<and> call_parent reply_1 = Some (comment_uuid 0) \<and> call_parent reply_2 = Some (comment_uuid 0)
   \<and> findById [root_0] (call_newId reply_1) = None
   \<and> findById [root_0] (call_newId reply_2) = None
   \<and> distinct (map call_newId [reply_1, reply_2])
   \<and> map_option childrenCount
        (findById (create_in_turn db_lower notify_ok [root_0] [reply_1, reply_2]) (comment_uuid 0))
        = Some 2"
proof -
  have ne: "comment_uuid 0 \<noteq> []" by (simp add: comment_uuid_def)
  have u0: "uuid_in db_lower (comment_uuid 0) = Some (comment_uuid 0)" by code_simp
  have f: "findById [root_0] (comment_uuid 0) = Some root_0" by code_simp
  have nd: "\<not> isDeleted root_0" and z: "childrenCount root_0 = 0"
    by (simp_all add: root_0_def new_comment_def)
  have pb: "call_parent reply_1 = Some (comment_uuid 0)"
    and pc: "call_parent reply_2 = Some (comment_uuid 0)"
    by (simp_all add: reply_1_def reply_2_def)
  have fb: "findById [root_0] (call_newId reply_1) = None"
    and fc: "findById [root_0] (call_newId reply_2) = None"
    by code_simp+
  have d: "distinct (map call_newId [reply_1, reply_2])" by code_simp
  have a: "\<forall>k \<in> set [reply_1, reply_2].
             call_parent k = Some (comment_uuid 0) \<and> findById [root_0] (call_newId k) = None"
    using pb pc fb fc by simp
  from replies_in_turn_are_counted
         [where db = db_lower and pid = "comment_uuid 0" and u = "comment_uuid 0",
          OF ne u0 f nd a d, of notify_ok]
  have "map_option childrenCount
          (findById (create_in_turn db_lower notify_ok [root_0] [reply_1, reply_2]) (comment_uuid 0))
        = Some 2"
    using z by auto
  then show ?thesis using ne u0 f nd pb pc fb fc d by blast
qed


end
